theory Spec2Isabelle
  imports Main
begin

section \<open>Python values and exceptions\<close>

text \<open>
  The number-theory core of \<^verbatim>\<open>mpu/math.py\<close>: \<^verbatim>\<open>generate_primes\<close>,
  \<^verbatim>\<open>factorize\<close> and \<^verbatim>\<open>is_prime\<close>. Python integers are unbounded, so they are
  \<open>int\<close>. \<^verbatim>\<open>factorize\<close> goes through binary64 floating point twice
  (\<^verbatim>\<open>number**0.5\<close> and \<^verbatim>\<open>number / i\<close>, which is true division in Python 3), so a
  finite float is modelled exactly: \<open>Float m t\<close> is the rational \<open>m / 2 ^ t\<close>. A Python
  \<^verbatim>\<open>bool\<close> is an \<^verbatim>\<open>int\<close> (\<^verbatim>\<open>True\<close> is \<open>1\<close>), so it is a \<open>PyInt\<close> here. The depth of
  Python's call stack is not modelled.
\<close>

datatype py_float = Float int nat

datatype py_value = PyInt int | PyFloat py_float | PyStr string | PyNone

text \<open>
  The exceptions the three functions can raise. \<^verbatim>\<open>factorize\<close> raises \<^verbatim>\<open>ValueError\<close> at
  two places, told apart by their messages:
  \<^verbatim>\<open>ValueError('integer expected, but type(number)=...')\<close> and
  \<^verbatim>\<open>ValueError('All primes are prime factors of 0.')\<close>. \<^verbatim>\<open>OverflowError\<close> comes from
  the conversion of an integer to a float.
\<close>

datatype py_error =
    ValueError_integer_expected
  | ValueError_prime_factors_of_0
  | OverflowError
  | ZeroDivisionError

section \<open>Binary64 arithmetic\<close>

text \<open>\<^verbatim>\<open>int.bit_length()\<close>: the number of binary digits of a positive integer.\<close>

function bit_length :: "int \<Rightarrow> nat" where
  "bit_length n = (if n \<le> 0 then 0 else Suc (bit_length (n div 2)))"
  by pat_completeness auto
termination
  by (relation "measure nat") auto

declare bit_length.simps [simp del]

text \<open>The integer square root \<open>\<lfloor>\<surd>n\<rfloor>\<close>, two bits at a time.\<close>

function isqrt :: "int \<Rightarrow> int" where
  "isqrt n = (if n \<le> 0 then 0
              else (let r = 2 * isqrt (n div 4)
                    in if (r + 1) * (r + 1) \<le> n then r + 1 else r))"
  by pat_completeness auto
termination
  by (relation "measure nat") auto

declare isqrt.simps [simp del]

text \<open>
  Rounding to the 53-bit significand of binary64, to nearest, ties to even. The value
  rounded is \<open>s\<close> when \<open>sticky\<close> is false and lies strictly between \<open>s\<close> and \<open>s + 1\<close>
  when it is true (a sticky value is only rounded with \<open>s\<close> of 55 bits or more).
\<close>

definition round53 :: "int \<Rightarrow> bool \<Rightarrow> int" where
  "round53 s sticky =
     (if bit_length s \<le> 53 then s
      else (let u = 2 ^ (bit_length s - 53); m = s div u; r = s mod u; half = u div 2
            in if half < r \<or> (r = half \<and> (sticky \<or> odd m)) then (m + 1) * u else m * u))"

text \<open>
  \<^verbatim>\<open>float(n)\<close> for an integer: correctly rounded, and
  \<^verbatim>\<open>OverflowError: int too large to convert to float\<close> when the rounded value
  reaches \<open>2 ^ 1024\<close>.
\<close>

definition py_float_of_int :: "int \<Rightarrow> py_error + py_float" where
  "py_float_of_int n =
     (let r = round53 \<bar>n\<bar> False
      in if 2 ^ 1024 \<le> r then Inl OverflowError else Inr (Float (sgn n * r) 0))"

text \<open>
  \<^verbatim>\<open>a / b\<close> on two integers (true division): CPython rounds the exact quotient
  correctly. The quotient is scaled by \<open>2 ^ t\<close> to at least 55 bits, and the remainder
  is the sticky bit. Results below the normal range (\<open>2 ^ -1022\<close>) are not modelled:
  \<^verbatim>\<open>factorize\<close> only divides a number by one of its divisors.
\<close>

definition py_truediv :: "int \<Rightarrow> int \<Rightarrow> py_error + py_float" where
  "py_truediv a b =
     (if b = 0 then Inl ZeroDivisionError
      else (let t = nat (55 + int (bit_length \<bar>b\<bar>) - int (bit_length \<bar>a\<bar>));
                x = (\<bar>a\<bar> * 2 ^ t) div \<bar>b\<bar>;
                sticky = ((\<bar>a\<bar> * 2 ^ t) mod \<bar>b\<bar> \<noteq> 0);
                r = round53 x sticky
            in if 2 ^ (1024 + t) \<le> r then Inl OverflowError
               else Inr (Float (sgn a * sgn b * r) t)))"

text \<open>
  The square root of a non-negative float, correctly rounded (IEEE 754 \<open>sqrt\<close>); it
  stands for the C library's \<^verbatim>\<open>pow(x, 0.5)\<close>. \<^verbatim>\<open>factorize\<close> takes it of a positive
  number only. A C library may return the float next to the correctly rounded one (for
  \<open>67291036 * 67291036 + 1\<close> some return the float above), which can move the end of
  the scan by one. What is proved below about the scan of a number \<open>n \<le> 2 ^ 53\<close> is
  that its last index lies between \<open>\<lfloor>\<surd>n\<rfloor>\<close> and \<open>\<lceil>\<surd>n\<rceil>\<close>, which holds for either float,
  and the runs evaluated beyond \<open>2 ^ 53\<close> find their divisor at \<open>2\<close> or \<open>3\<close>.
\<close>

definition py_sqrt :: "py_float \<Rightarrow> py_float" where
  "py_sqrt x = (case x of Float m t \<Rightarrow>
     (let y = \<bar>m\<bar> * 2 ^ t * 4 ^ 54; s = isqrt y
      in Float (round53 s (s * s \<noteq> y)) (t + 54)))"

text \<open>\<^verbatim>\<open>number**0.5\<close>: the integer is converted to a float first.\<close>

definition py_pow_half :: "int \<Rightarrow> py_error + py_float" where
  "py_pow_half number =
     (case py_float_of_int number of Inl e \<Rightarrow> Inl e | Inr x \<Rightarrow> Inr (py_sqrt x))"

text \<open>
  \<^verbatim>\<open>int(math.ceil(x))\<close> (in Python 3 \<^verbatim>\<open>math.ceil\<close> already returns an integer) and
  \<^verbatim>\<open>int(x)\<close>, which truncates towards zero.
\<close>

definition py_ceil :: "py_float \<Rightarrow> int" where
  "py_ceil x = (case x of Float m t \<Rightarrow> - ((- m) div 2 ^ t))"

definition py_int :: "py_float \<Rightarrow> int" where
  "py_int x = (case x of Float m t \<Rightarrow> sgn m * (\<bar>m\<bar> div 2 ^ t))"

section \<open>factorize and is\_prime\<close>

text \<open>
  The scan of \<^verbatim>\<open>factorize\<close>,
  \<^verbatim>\<open>for i in range(2, stop): if number % i == 0: return ...\<close>, as the search for the
  first \<open>i\<close> of the range at which the test succeeds; \<open>None\<close> when the range is
  exhausted.
\<close>

function first_divisor :: "int \<Rightarrow> int \<Rightarrow> int \<Rightarrow> int option" where
  "first_divisor number i stop =
     (if i < stop
      then (if number mod i = 0 then Some i else first_divisor number (i + 1) stop)
      else None)"
  by pat_completeness auto
termination
  by (relation "measure (\<lambda>(number, i, stop). nat (stop - i))") auto

declare first_divisor.simps [simp del]

text \<open>
  \<^verbatim>\<open>
  def factorize(number):
      if not isinstance(number, int):
          raise ValueError('integer expected, but type(number)={}'
                           .format(type(number)))
      if number < 0:
          return [-1] + factorize(number * (-1))
      elif number == 0:
          raise ValueError('All primes are prime factors of 0.')
      else:
          for i in range(2, int(math_stl.ceil(number**0.5)) + 1):
              if number % i == 0:
                  if i == number:
                      return [i]
                  else:
                      return [i] + factorize(int(number / i))
          return [number]
  \<close>
  The recursion is not structural; its termination is proved below, once the quotient
  \<^verbatim>\<open>int(number / i)\<close> is known to be smaller than \<^verbatim>\<open>number\<close>.
\<close>

function factorize :: "py_value \<Rightarrow> py_error + int list" where
  "factorize v =
     (case v of
        PyInt number \<Rightarrow>
          (if number < 0 then
             (case factorize (PyInt (number * (- 1))) of
                Inl e \<Rightarrow> Inl e
              | Inr fs \<Rightarrow> Inr ([- 1] @ fs))
           else if number = 0 then Inl ValueError_prime_factors_of_0
           else
             (case py_pow_half number of
                Inl e \<Rightarrow> Inl e
              | Inr r \<Rightarrow>
                 (case first_divisor number 2 (py_ceil r + 1) of
                    Some i \<Rightarrow>
                      (if i = number then Inr [i]
                       else (case py_truediv number i of
                               Inl e \<Rightarrow> Inl e
                             | Inr q \<Rightarrow>
                                (case factorize (PyInt (py_int q)) of
                                   Inl e \<Rightarrow> Inl e
                                 | Inr fs \<Rightarrow> Inr ([i] @ fs))))
                  | None \<Rightarrow> Inr [number])))
      | _ \<Rightarrow> Inl ValueError_integer_expected)"
  by pat_completeness auto

text \<open>
  The values of \<open>i\<close> at which the scan evaluates \<^verbatim>\<open>number % i == 0\<close>: the range up to
  and including the first divisor found, or the whole range when none is found.
\<close>

function tested_divisors :: "int \<Rightarrow> int \<Rightarrow> int \<Rightarrow> int list" where
  "tested_divisors number i stop =
     (if i < stop
      then (if number mod i = 0 then [i] else i # tested_divisors number (i + 1) stop)
      else [])"
  by pat_completeness auto
termination
  by (relation "measure (\<lambda>(number, i, stop). nat (stop - i))") auto

declare tested_divisors.simps [simp del]

text \<open>\<^verbatim>\<open>def is_prime(number): return len(factorize(number)) == 1\<close>\<close>

definition is_prime :: "py_value \<Rightarrow> py_error + bool" where
  "is_prime number =
     (case factorize number of Inl e \<Rightarrow> Inl e | Inr fs \<Rightarrow> Inr (length fs = 1))"

section \<open>generate\_primes\<close>

text \<open>
  \<^verbatim>\<open>
  def generate_primes():
      divisors = {}  # map number to at least one divisor
      candidate = 2  # next potential prime
      while True:
          if candidate in divisors:
              for p in divisors[candidate]:
                  divisors.setdefault(p + candidate, []).append(p)
              del divisors[candidate]
          else:
              yield candidate
              divisors[candidate * candidate] = [candidate]
          candidate += 1
  \<close>
  The generator's private state is the dictionary and the counter.
\<close>

record sieve =
  divisors :: "int \<rightharpoonup> int list"
  candidate :: int

text \<open>The state of a generator that has just been created.\<close>

definition generate_primes :: sieve where
  "generate_primes = \<lparr>divisors = Map.empty, candidate = 2\<rparr>"

text \<open>\<^verbatim>\<open>divisors.setdefault(p + candidate, []).append(p)\<close>\<close>

definition setdefault_append :: "int \<Rightarrow> (int \<rightharpoonup> int list) \<Rightarrow> int \<Rightarrow> (int \<rightharpoonup> int list)" where
  "setdefault_append c d p =
     d(p + c \<mapsto> (case d (p + c) of None \<Rightarrow> [] | Some ws \<Rightarrow> ws) @ [p])"

text \<open>
  One pass through the body of \<^verbatim>\<open>while True\<close>: the value it yields, if any, and the
  state at the top of the next pass. The \<^verbatim>\<open>for\<close> loop runs over the witnesses of the
  candidate as they stand when the loop starts; the lists it appends to belong to the
  keys \<open>p + candidate\<close>, which differ from \<open>candidate\<close> for every witness but \<open>0\<close>, and
  \<open>0\<close> is never a witness in a state the generator reaches. The two statements after
  \<^verbatim>\<open>yield\<close> run when the generator is resumed; here they are run with the pass that
  yields, which changes no value that is yielded and no state at the top of a pass.
\<close>

definition loop_body :: "sieve \<Rightarrow> int option \<times> sieve" where
  "loop_body s =
     (case divisors s (candidate s) of
        Some ws \<Rightarrow>
          (None,
           \<lparr>divisors = (fold (\<lambda>p d. setdefault_append (candidate s) d p) ws (divisors s))
                          (candidate s := None),
            candidate = candidate s + 1\<rparr>)
      | None \<Rightarrow>
          (Some (candidate s),
           \<lparr>divisors = (divisors s)(candidate s * candidate s \<mapsto> [candidate s]),
            candidate = candidate s + 1\<rparr>))"

text \<open>
  \<^verbatim>\<open>next(g)\<close>: passes are run until one yields. Nothing in the code bounds the number
  of passes, so the result is an option: \<open>None\<close> is a call that never returns.
\<close>

partial_function (option) next_prime :: "sieve \<Rightarrow> (int \<times> sieve) option" where
  "next_prime s =
     (case loop_body s of
        (Some p, s') \<Rightarrow> Some (p, s')
      | (None, s') \<Rightarrow> next_prime s')"

text \<open>The first \<open>k\<close> values pulled from a generator, \<^verbatim>\<open>[next(g) for _ in range(k)]\<close>.\<close>

fun pull :: "nat \<Rightarrow> sieve \<Rightarrow> (int list \<times> sieve) option" where
  "pull 0 s = Some ([], s)"
| "pull (Suc k) s =
     (case next_prime s of
        None \<Rightarrow> None
      | Some (p, s') \<Rightarrow>
          (case pull k s' of None \<Rightarrow> None | Some (ps, s'') \<Rightarrow> Some (p # ps, s'')))"

text \<open>The state at the top of the \<open>n\<close>-th pass of the loop (counting from \<open>0\<close>).\<close>

fun pass :: "nat \<Rightarrow> sieve" where
  "pass 0 = generate_primes"
| "pass (Suc n) = snd (loop_body (pass n))"

section \<open>The notions the properties are stated with\<close>

text \<open>A prime number: an integer above \<open>1\<close> with no divisor strictly between \<open>1\<close> and itself.\<close>

definition prime_int :: "int \<Rightarrow> bool" where
  "prime_int p \<longleftrightarrow> 1 < p \<and> (\<forall>d\<in>{2..<p}. \<not> d dvd p)"

text \<open>The values yielded during the first \<open>n\<close> passes of the loop, in order.\<close>

fun emitted :: "nat \<Rightarrow> int list" where
  "emitted 0 = []"
| "emitted (Suc n) =
     emitted n @ (case fst (loop_body (pass n)) of Some p \<Rightarrow> [p] | None \<Rightarrow> [])"

text \<open>
  The key under which the sieve keeps a prime \<open>p\<close> when the candidate is \<open>c\<close>: the first
  multiple of \<open>p\<close> that is at least \<open>c\<close> and at least \<open>p * p\<close>.
\<close>

definition watch :: "int \<Rightarrow> int \<Rightarrow> int \<Rightarrow> bool" where
  "watch c p k \<longleftrightarrow> p dvd k \<and> c \<le> k \<and> p * p \<le> k \<and> (k < c + p \<or> k = p * p)"

text \<open>
  The invariant of the loop, at the top of a pass: every list of the dictionary is
  non-empty and without repetition, it holds primes below the candidate, each under the
  key that watches for it, and every prime below the candidate is in some list.
\<close>

definition sieve_inv :: "sieve \<Rightarrow> bool" where
  "sieve_inv s \<longleftrightarrow>
     2 \<le> candidate s
     \<and> (\<forall>k ws. divisors s k = Some ws \<longrightarrow>
           ws \<noteq> [] \<and> distinct ws
           \<and> (\<forall>p\<in>set ws. prime_int p \<and> p < candidate s \<and> watch (candidate s) p k))
     \<and> (\<forall>p. prime_int p \<and> p < candidate s \<longrightarrow>
           (\<exists>k ws. divisors s k = Some ws \<and> p \<in> set ws))"

section \<open>Facts about the binary64 operations\<close>

lemma bit_length_0 [simp]: "n \<le> 0 \<Longrightarrow> bit_length n = 0"
  by (simp add: bit_length.simps)

lemma bit_length_bounds:
  "0 < n \<Longrightarrow> 2 ^ (bit_length n - 1) \<le> n \<and> n < 2 ^ bit_length n"
proof (induction n rule: bit_length.induct)
  case (1 n)
  show ?case
  proof (cases "n div 2 \<le> 0")
    case True
    with "1.prems" have "n = 1" by linarith
    then show ?thesis by (simp add: bit_length.simps)
  next
    case False
    then have pos: "0 < n div 2" by simp
    from "1.IH" "1.prems" pos
    have ih: "2 ^ (bit_length (n div 2) - 1) \<le> n div 2" "n div 2 < 2 ^ bit_length (n div 2)"
      by auto
    have bl: "bit_length n = Suc (bit_length (n div 2))"
      using "1.prems" by (subst bit_length.simps) simp
    have blpos: "0 < bit_length (n div 2)"
      using pos by (subst bit_length.simps) simp
    then obtain k where k: "bit_length (n div 2) = Suc k"
      by (cases "bit_length (n div 2)") auto
    show ?thesis using ih by (simp add: bl k) linarith
  qed
qed

lemma bit_length_le: "0 \<le> n \<Longrightarrow> n < 2 ^ k \<Longrightarrow> bit_length n \<le> k"
proof (rule ccontr)
  assume n: "0 \<le> n" "n < 2 ^ k" and c: "\<not> bit_length n \<le> k"
  then have "0 < n" by (cases "n = 0") auto
  from bit_length_bounds[OF this] have "2 ^ (bit_length n - 1) \<le> n" by simp
  moreover have "(2::int) ^ k \<le> 2 ^ (bit_length n - 1)"
    using c by (intro power_increasing) auto
  ultimately show False using n by linarith
qed

lemma round53_small: "0 \<le> s \<Longrightarrow> s < 2 ^ 53 \<Longrightarrow> round53 s st = s"
  using bit_length_le[of s 53] by (simp add: round53_def)

lemma round53_cases:
  assumes "53 < bit_length s"
  shows "round53 s st = (s div 2 ^ (bit_length s - 53)) * 2 ^ (bit_length s - 53)
       \<or> round53 s st = (s div 2 ^ (bit_length s - 53) + 1) * 2 ^ (bit_length s - 53)"
  using assms by (simp add: round53_def Let_def)

lemma round53_mantissa:
  assumes "53 < bit_length s"
  shows "2 ^ 52 \<le> s div 2 ^ (bit_length s - 53)"
proof -
  have pos: "0 < s" using assms by (cases "s \<le> 0") auto
  from bit_length_bounds[OF pos] have "2 ^ (bit_length s - 1) \<le> s" by simp
  moreover have "(2::int) ^ (bit_length s - 1) = 2 ^ 52 * 2 ^ (bit_length s - 53)"
  proof -
    have "bit_length s - 1 = 52 + (bit_length s - 53)" using assms by simp
    then show ?thesis by (simp only: power_add)
  qed
  ultimately have "2 ^ 52 * 2 ^ (bit_length s - 53) \<le> s" by simp
  then have "(2 ^ 52 * 2 ^ (bit_length s - 53)) div 2 ^ (bit_length s - 53) \<le> s div 2 ^ (bit_length s - 53)"
    by (intro zdiv_mono1) auto
  then show ?thesis by simp
qed

lemma round53_upper: "0 < s \<Longrightarrow> round53 s st < 2 * s"
proof (cases "53 < bit_length s")
  case True
  assume "0 < s"
  define u :: int where "u = 2 ^ (bit_length s - 53)"
  define m where "m = s div u"
  have u: "0 < u" by (simp add: u_def)
  have m: "2 ^ 52 \<le> m" using round53_mantissa[OF True] by (simp add: m_def u_def)
  have "s = m * u + s mod u" by (simp add: m_def)
  moreover have "0 \<le> s mod u" using u by simp
  ultimately have "m * u \<le> s" by linarith
  moreover have "round53 s st \<le> (m + 1) * u"
    using round53_cases[OF True, of st] u by (auto simp: m_def u_def)
  moreover have "(m + 1) * u < 2 * (m * u)"
    using m u by (simp add: algebra_simps)
  ultimately show ?thesis by linarith
next
  case False
  assume "0 < s"
  with False show ?thesis by (simp add: round53_def)
qed

lemma round53_lower_pow2:
  assumes "2 ^ t \<le> s"
  shows "2 ^ t \<le> round53 s st"
proof (cases "53 < bit_length s")
  case True
  define k where "k = bit_length s - 53"
  define m where "m = s div 2 ^ k"
  have m: "2 ^ 52 \<le> m" using round53_mantissa[OF True] by (simp add: m_def k_def)
  have low: "m * 2 ^ k \<le> round53 s st"
    using round53_cases[OF True, of st] by (auto simp: m_def k_def algebra_simps)
  have "2 ^ t \<le> m * 2 ^ k"
  proof (cases "k \<le> t")
    case True
    then have "(2::int) ^ t = 2 ^ (t - k) * 2 ^ k" by (simp flip: power_add)
    moreover have "2 ^ (t - k) \<le> m"
    proof -
      have "(2 ^ (t - k) * 2 ^ k) div 2 ^ k \<le> s div 2 ^ k"
        using assms \<open>(2::int) ^ t = 2 ^ (t - k) * 2 ^ k\<close> by (intro zdiv_mono1) auto
      then show ?thesis by (simp add: m_def)
    qed
    ultimately show ?thesis by simp
  next
    case False
    then have "(2::int) ^ t \<le> 2 ^ k" by (intro power_increasing) auto
    moreover have "1 \<le> m" using m by simp
    then have "1 * 2 ^ k \<le> m * (2::int) ^ k"
      by (intro mult_right_mono) auto
    ultimately show ?thesis by linarith
  qed
  with low show ?thesis by linarith
next
  case False
  with assms show ?thesis by (simp add: round53_def)
qed

lemma first_divisor_Some:
  "first_divisor number i stop = Some d \<Longrightarrow> i \<le> d \<and> d < stop \<and> number mod d = 0"
proof (induction number i stop rule: first_divisor.induct)
  case (1 number i stop)
  then show ?case
    by (subst (asm) (2) first_divisor.simps) (auto split: if_splits)
qed

lemma py_truediv_exact_bounds:
  assumes a: "0 < a" and b: "2 \<le> b" and d: "a mod b = 0" and q: "py_truediv a b = Inr q"
  shows "0 < py_int q \<and> py_int q < a"
proof -
  define t where "t = nat (55 + int (bit_length \<bar>b\<bar>) - int (bit_length \<bar>a\<bar>))"
  define x where "x = (\<bar>a\<bar> * 2 ^ t) div \<bar>b\<bar>"
  define r where "r = round53 x ((\<bar>a\<bar> * 2 ^ t) mod \<bar>b\<bar> \<noteq> 0)"
  have bdvd: "b dvd a" using d by auto
  then obtain c where c: "a = b * c" by (auto simp: dvd_def)
  have cpos: "0 < c" using a b c by (simp add: zero_less_mult_iff)
  have x: "x = c * 2 ^ t" using a b c by (simp add: x_def)
  have qeq: "q = Float r t"
    using q a b by (auto simp: py_truediv_def Let_def t_def x_def r_def split: if_splits)
  have xge: "2 ^ t \<le> x" using cpos by (simp add: x)
  have xpos: "0 < x" using cpos by (simp add: x)
  have lo: "2 ^ t \<le> r" unfolding r_def by (rule round53_lower_pow2[OF xge])
  have "r < 2 * x" unfolding r_def by (rule round53_upper[OF xpos])
  also have "2 * x \<le> a * 2 ^ t"
  proof -
    have "2 * c \<le> b * c" using b cpos by (intro mult_right_mono) auto
    then have "(2 * c) * 2 ^ t \<le> (b * c) * 2 ^ t" by (rule mult_right_mono) simp
    then show ?thesis by (simp add: x c mult.assoc)
  qed
  finally have hi: "r < a * 2 ^ t" .
  have rpos: "0 < r" using lo by (smt (verit) zero_less_power)
  have "(2::int) ^ t div 2 ^ t \<le> r div 2 ^ t" using lo by (rule zdiv_mono1) simp
  then have "1 \<le> r div 2 ^ t" by simp
  moreover have "r div 2 ^ t < a"
  proof (rule ccontr)
    assume "\<not> r div 2 ^ t < a"
    then have "a * 2 ^ t \<le> (r div 2 ^ t) * 2 ^ t" by (intro mult_right_mono) auto
    moreover have "r = (r div 2 ^ t) * 2 ^ t + r mod 2 ^ t"
      by (rule div_mult_mod_eq[symmetric])
    moreover have "0 \<le> r mod (2::int) ^ t" by simp
    ultimately show False using hi by linarith
  qed
  ultimately show ?thesis using rpos by (simp add: qeq py_int_def)
qed


section \<open>Termination of factorize\<close>

termination factorize
proof (relation "measure (\<lambda>v. case v of PyInt n \<Rightarrow> (if n < 0 then 2 * nat (- n) + 1 else 2 * nat n) | _ \<Rightarrow> 0)")
  show "wf (measure (\<lambda>v. case v of PyInt n \<Rightarrow> (if n < 0 then 2 * nat (- n) + 1 else 2 * nat n) | _ \<Rightarrow> 0))"
    by simp
next
  fix v number
  assume "v = PyInt number" "number < 0"
  then show "(PyInt (number * (- 1)), v) \<in> measure (\<lambda>v. case v of PyInt n \<Rightarrow> (if n < 0 then 2 * nat (- n) + 1 else 2 * nat n) | _ \<Rightarrow> 0)"
    by simp
next
  fix v number r i q
  assume h: "v = PyInt number" "\<not> number < 0" "number \<noteq> 0"
    "first_divisor number 2 (py_ceil r + 1) = Some i" "i \<noteq> number"
    "py_truediv number i = Inr q"
  from first_divisor_Some[OF h(4)] have i: "2 \<le> i" "number mod i = 0" by auto
  from h have pos: "0 < number" by simp
  from py_truediv_exact_bounds[OF pos i h(6)]
  show "(PyInt (py_int q), v) \<in> measure (\<lambda>v. case v of PyInt n \<Rightarrow> (if n < 0 then 2 * nat (- n) + 1 else 2 * nat n) | _ \<Rightarrow> 0)"
    using h(1) by simp
qed


declare factorize.simps [simp del]

section \<open>Where the binary64 operations are exact\<close>

lemma isqrt_bounds: "0 \<le> n \<Longrightarrow> 0 \<le> isqrt n \<and> isqrt n * isqrt n \<le> n \<and> n < (isqrt n + 1) * (isqrt n + 1)"
proof (induction n rule: isqrt.induct)
  case (1 n)
  show ?case
  proof (cases "n \<le> 0")
    case True
    with "1.prems" have "n = 0" by simp
    then show ?thesis by (simp add: isqrt.simps)
  next
    case False
    define a where "a = isqrt (n div 4)"
    have "0 \<le> n div 4" using "1.prems" by simp
    with "1.IH"[OF False] have ih: "0 \<le> a" "a * a \<le> n div 4" "n div 4 < (a + 1) * (a + 1)"
      by (auto simp: a_def)
    have eq: "isqrt n = (if (2 * a + 1) * (2 * a + 1) \<le> n then 2 * a + 1 else 2 * a)"
      using False by (subst isqrt.simps) (simp add: a_def Let_def)
    have n4: "4 * (n div 4) \<le> n" "n < 4 * (n div 4) + 4" by linarith+
    have lo: "(2 * a) * (2 * a) \<le> n"
    proof -
      have "(2 * a) * (2 * a) = 4 * (a * a)" by simp
      with ih(2) n4(1) show ?thesis by linarith
    qed
    have hi: "n < (2 * a + 2) * (2 * a + 2)"
    proof -
      have "(2 * a + 2) * (2 * a + 2) = 4 * ((a + 1) * (a + 1))" by (simp add: algebra_simps)
      with ih(3) n4(2) show ?thesis by linarith
    qed
    show ?thesis
    proof (cases "(2 * a + 1) * (2 * a + 1) \<le> n")
      case True
      with hi ih(1) show ?thesis by (simp add: eq algebra_simps)
    next
      case False
      with lo ih(1) show ?thesis by (simp add: eq algebra_simps)
    qed
  qed
qed

lemma isqrt_ge: assumes "0 \<le> g" "g * g \<le> n" shows "g \<le> isqrt n"
proof (rule ccontr)
  assume "\<not> g \<le> isqrt n"
  then have le: "isqrt n + 1 \<le> g" by simp
  have n: "0 \<le> n" using assms by (smt (verit) zero_le_square)
  from isqrt_bounds[OF n] have b: "0 \<le> isqrt n" "n < (isqrt n + 1) * (isqrt n + 1)" by auto
  have "(isqrt n + 1) * (isqrt n + 1) \<le> g * g"
    using le b(1) by (intro mult_mono) auto
  with b(2) assms(2) show False by linarith
qed

lemma isqrt_le: assumes "0 \<le> g" "0 \<le> n" "n \<le> g * g" shows "isqrt n \<le> g"
proof (rule ccontr)
  assume "\<not> isqrt n \<le> g"
  then have le: "g + 1 \<le> isqrt n" by simp
  from isqrt_bounds[OF assms(2)] have b: "isqrt n * isqrt n \<le> n" by auto
  have "(g + 1) * (g + 1) \<le> isqrt n * isqrt n"
    using le assms(1) by (intro mult_mono) auto
  moreover have "g * g < (g + 1) * (g + 1)" using assms(1) by (simp add: algebra_simps)
  ultimately show False using b assms(3) by linarith
qed

lemma round53_ge_grid:
  assumes bl: "bit_length s \<le> 53 + j" and dv: "2 ^ j dvd g" and le: "g \<le> s"
  shows "g \<le> round53 s st"
proof (cases "53 < bit_length s")
  case True
  define k where "k = bit_length s - 53"
  have kj: "k \<le> j" using bl by (simp add: k_def)
  have "(2::int) ^ k dvd 2 ^ j" using kj by (rule le_imp_power_dvd)
  then have ug: "2 ^ k dvd g" using dv by (rule dvd_trans)
  have "g div 2 ^ k \<le> s div 2 ^ k" using le by (rule zdiv_mono1) simp
  then have "(g div 2 ^ k) * 2 ^ k \<le> (s div 2 ^ k) * 2 ^ k" by (rule mult_right_mono) simp
  then have "g \<le> (s div 2 ^ k) * 2 ^ k" using ug by simp
  moreover have "(s div 2 ^ k) * 2 ^ k \<le> round53 s st"
    using round53_cases[OF True, of st] by (auto simp: k_def algebra_simps)
  ultimately show ?thesis by linarith
next
  case False
  with le show ?thesis by (simp add: round53_def)
qed

lemma round53_le_grid:
  assumes bl: "bit_length s \<le> 53 + j" and dv: "2 ^ j dvd g" and le: "s \<le> g"
  shows "round53 s st \<le> g"
proof (cases "53 < bit_length s")
  case True
  define k where "k = bit_length s - 53"
  define u :: int where "u = 2 ^ k"
  define m where "m = s div u"
  have kpos: "0 < k" using True by (simp add: k_def)
  have kj: "k \<le> j" using bl by (simp add: k_def)
  have "(2::int) ^ k dvd 2 ^ j" using kj by (rule le_imp_power_dvd)
  then have ug: "u dvd g" unfolding u_def using dv by (rule dvd_trans)
  have upos: "0 < u" by (simp add: u_def)
  have u2: "2 \<le> u"
  proof -
    have "(2::int) ^ 1 \<le> 2 ^ k" using kpos by (intro power_increasing) auto
    then show ?thesis by (simp add: u_def)
  qed
  have s: "s = m * u + s mod u" by (simp add: m_def)
  have r: "0 \<le> s mod u" "s mod u < u" using upos by simp_all
  show ?thesis
  proof (cases "s mod u = 0")
    case True
    have half: "1 \<le> u div 2" using u2 by linarith
    have "round53 s st = m * u"
      using \<open>53 < bit_length s\<close> True half
      by (simp add: round53_def Let_def k_def[symmetric] u_def[symmetric] m_def)
    with s True le show ?thesis by simp
  next
    case False
    obtain c where c: "g = u * c" using ug by (auto simp: dvd_def)
    have "m * u < u * c" using s r False le c by linarith
    then have "m < c" using upos by (simp add: mult.commute)
    then have "(m + 1) * u \<le> c * u" using upos by (intro mult_right_mono) auto
    moreover have "round53 s st \<le> (m + 1) * u"
      using round53_cases[OF \<open>53 < bit_length s\<close>, of st] upos
      by (auto simp: m_def u_def k_def)
    ultimately show ?thesis using c by (simp add: mult.commute)
  qed
next
  case False
  with le show ?thesis by (simp add: round53_def)
qed

lemma round53_exact:
  assumes "bit_length s \<le> 53 + j" "2 ^ j dvd s"
  shows "round53 s st = s"
  using round53_ge_grid[OF assms, of st] round53_le_grid[OF assms, of st] by simp

lemma py_float_of_int_exact:
  assumes "0 \<le> n" "n \<le> 2 ^ 53"
  shows "py_float_of_int n = Inr (Float n 0)"
proof -
  have r: "round53 n False = n"
  proof (cases "n < 2 ^ 53")
    case True
    with assms show ?thesis by (simp add: round53_small)
  next
    case False
    with assms have n: "n = 2 ^ 53" by simp
    have "n < 2 ^ 54" by (simp add: n)
    with assms have "bit_length n \<le> 53 + 1" using bit_length_le[of n 54] by simp
    moreover have "2 ^ 1 dvd n" by (simp add: n)
    ultimately show ?thesis by (rule round53_exact)
  qed
  have "n < 2 ^ 1024" using assms(2) by simp
  with r assms(1) show ?thesis
    by (cases "n = 0") (simp_all add: py_float_of_int_def Let_def)
qed


lemma py_ceil_Float_ge: "k * 2 ^ t \<le> m \<Longrightarrow> k \<le> py_ceil (Float m t)"
proof -
  assume "k * 2 ^ t \<le> m"
  then have "- m \<le> (- k) * 2 ^ t" by simp
  then have "(- m) div 2 ^ t \<le> ((- k) * 2 ^ t) div 2 ^ t" by (rule zdiv_mono1) simp
  moreover have "((- k) * 2 ^ t) div (2::int) ^ t = - k"
    by (rule nonzero_mult_div_cancel_right) simp
  ultimately have "(- m) div 2 ^ t \<le> - k" by (simp only:)
  then show ?thesis by (simp add: py_ceil_def)
qed

lemma py_ceil_Float_le: "m \<le> k * 2 ^ t \<Longrightarrow> py_ceil (Float m t) \<le> k"
proof -
  assume "m \<le> k * 2 ^ t"
  then have "(- k) * 2 ^ t \<le> - m" by simp
  then have "((- k) * 2 ^ t) div 2 ^ t \<le> (- m) div 2 ^ t" by (rule zdiv_mono1) simp
  moreover have "((- k) * 2 ^ t) div (2::int) ^ t = - k"
    by (rule nonzero_mult_div_cancel_right) simp
  ultimately have "- k \<le> (- m) div 2 ^ t" by (simp only:)
  then show ?thesis by (simp add: py_ceil_def)
qed

lemma py_pow_half_exact_range:
  assumes n: "1 \<le> n" "n \<le> 2 ^ 53"
  shows "\<exists>r. py_pow_half n = Inr r
           \<and> (\<forall>k. 0 \<le> k \<and> k * k \<le> n \<longrightarrow> k \<le> py_ceil r)
           \<and> (\<forall>k. 0 \<le> k \<and> n \<le> k * k \<longrightarrow> py_ceil r \<le> k)"
proof -
  define y where "y = n * 4 ^ 54"
  define s where "s = isqrt y"
  define R where "R = round53 s (s * s \<noteq> y)"
  have fl: "py_float_of_int n = Inr (Float n 0)"
    using n by (intro py_float_of_int_exact) auto
  have npos: "\<bar>n\<bar> = n" using n by simp
  have ph: "py_pow_half n = Inr (Float R 54)"
    unfolding R_def s_def y_def
    by (simp add: py_pow_half_def fl py_sqrt_def Let_def npos)
  have y0: "0 \<le> y" using n by (simp add: y_def)
  have s0: "0 \<le> s" using isqrt_bounds[OF y0] by (simp add: s_def)
  have "y \<le> 2 ^ 53 * 4 ^ 54" unfolding y_def using n(2) by (rule mult_right_mono) simp
  also have "\<dots> \<le> (2 ^ 81 * 2 ^ 81 :: int)" by simp
  finally have "s \<le> 2 ^ 81" unfolding s_def using y0 by (intro isqrt_le) auto
  then have "s < 2 ^ 107" by simp
  with s0 have bl: "bit_length s \<le> 53 + 54" using bit_length_le[of s 107] by simp
  have lower: "k \<le> py_ceil (Float R 54)" if k: "0 \<le> k" "k * k \<le> n" for k
  proof -
    have "(k * 2 ^ 54) * (k * 2 ^ 54) = (k * k) * 4 ^ 54" by simp
    also have "\<dots> \<le> y" unfolding y_def using k(2) by (rule mult_right_mono) simp
    finally have "k * 2 ^ 54 \<le> s" unfolding s_def using k(1) by (intro isqrt_ge) auto
    then have "k * 2 ^ 54 \<le> R" unfolding R_def using bl by (intro round53_ge_grid[where j = 54]) auto
    then show ?thesis by (rule py_ceil_Float_ge)
  qed
  have upper: "py_ceil (Float R 54) \<le> k" if k: "0 \<le> k" "n \<le> k * k" for k
  proof -
    have "y \<le> (k * k) * 4 ^ 54" unfolding y_def using k(2) by (rule mult_right_mono) simp
    also have "\<dots> = (k * 2 ^ 54) * (k * 2 ^ 54)" by simp
    finally have "s \<le> k * 2 ^ 54" unfolding s_def using k(1) y0 by (intro isqrt_le) auto
    then have "R \<le> k * 2 ^ 54" unfolding R_def using bl by (intro round53_le_grid[where j = 54]) auto
    then show ?thesis by (rule py_ceil_Float_le)
  qed
  show ?thesis using ph lower upper by auto
qed

lemma py_truediv_exact:
  assumes a: "0 < a" and b: "0 < b" and dv: "b dvd a" and q: "a div b < 2 ^ 53"
  shows "\<exists>q. py_truediv a b = Inr q \<and> py_int q = a div b"
proof -
  define t where "t = nat (55 + int (bit_length b) - int (bit_length a))"
  define x where "x = (a * 2 ^ t) div b"
  define r where "r = round53 x ((a * 2 ^ t) mod b \<noteq> 0)"
  have unf: "py_truediv a b = (if 2 ^ (1024 + t) \<le> r then Inl OverflowError else Inr (Float r t))"
    using a b by (simp add: py_truediv_def Let_def t_def x_def r_def)
  obtain c where c: "a = b * c" using dv by (auto simp: dvd_def)
  have cpos: "0 < c" using a b c by (simp add: zero_less_mult_iff)
  have cq: "a div b = c" using b c by simp
  have x: "x = c * 2 ^ t" using a b c by (simp add: x_def)
  have "x < 2 ^ 53 * 2 ^ t" unfolding x using q cq by (intro mult_strict_right_mono) auto
  then have xlt: "x < 2 ^ (53 + t)" by (simp add: power_add)
  have x0: "0 \<le> x" using cpos by (simp add: x)
  have bl: "bit_length x \<le> 53 + t" using x0 xlt by (rule bit_length_le)
  have "2 ^ t dvd x" by (simp add: x)
  with bl have rx: "r = x" unfolding r_def by (rule round53_exact)
  have "(2::int) ^ (53 + t) \<le> 2 ^ (1024 + t)" by (intro power_increasing) auto
  with xlt rx have nov: "\<not> 2 ^ (1024 + t) \<le> r" by linarith
  have "py_truediv a b = Inr (Float r t)"
    using nov by (simp add: unf)
  moreover have "py_int (Float r t) = c" using cpos by (simp add: py_int_def rx x)
  ultimately show ?thesis using cq by simp
qed

lemma first_divisor_None:
  "first_divisor number i stop = None \<Longrightarrow> i \<le> j \<Longrightarrow> j < stop \<Longrightarrow> number mod j \<noteq> 0"
proof (induction number i stop rule: first_divisor.induct)
  case (1 number i stop)
  from "1.prems"(1) have a: "i < stop \<longrightarrow> number mod i \<noteq> 0 \<and> first_divisor number (i + 1) stop = None"
    by (subst (asm) first_divisor.simps) (auto split: if_splits)
  show ?case
  proof (cases "j = i")
    case True
    with a "1.prems" show ?thesis by simp
  next
    case False
    with "1.prems" have "i + 1 \<le> j" "i < stop" by auto
    with a "1.IH" "1.prems" show ?thesis by auto
  qed
qed

lemma first_divisor_least:
  "first_divisor number i stop = Some d \<Longrightarrow> i \<le> j \<Longrightarrow> j < d \<Longrightarrow> number mod j \<noteq> 0"
proof (induction number i stop rule: first_divisor.induct)
  case (1 number i stop)
  from first_divisor_Some[OF "1.prems"(1)] have d: "i \<le> d" "d < stop" by auto
  show ?case
  proof (cases "number mod i = 0")
    case True
    with d have "first_divisor number i stop = Some i"
      by (subst first_divisor.simps) simp
    with "1.prems" show ?thesis by simp
  next
    case False
    with d "1.prems"(1) have nx: "first_divisor number (i + 1) stop = Some d"
      by (subst (asm) first_divisor.simps) (simp split: if_splits)
    show ?thesis
    proof (cases "j = i")
      case True
      with False show ?thesis by simp
    next
      case F: False
      with "1.prems" have "i + 1 \<le> j" by simp
      with "1.IH"[OF _ False nx] d "1.prems" show ?thesis by simp
    qed
  qed
qed

section \<open>factorize on the numbers that binary64 holds exactly\<close>

lemma prime_int_upto: "prime_int p \<longleftrightarrow> 1 < p \<and> (\<forall>d\<in>set [2..p - 1]. \<not> d dvd p)"
proof -
  have "{2..<p} = {2..p - 1}" by auto
  then show ?thesis by (simp add: prime_int_def)
qed

lemma first_divisor_SomeI:
  assumes "lo \<le> i" "i < stop" "number mod i = 0"
    and least: "\<forall>j. lo \<le> j \<and> j < i \<longrightarrow> number mod j \<noteq> 0"
  shows "first_divisor number lo stop = Some i"
proof (cases "first_divisor number lo stop")
  case None
  from first_divisor_None[OF None assms(1,2)] assms(3) show ?thesis by simp
next
  case (Some d)
  from first_divisor_Some[OF Some] have d: "lo \<le> d" "d < stop" "number mod d = 0" by auto
  have "\<not> d < i" using least d by auto
  moreover have "\<not> i < d" using first_divisor_least[OF Some assms(1)] assms(3) by auto
  ultimately show ?thesis using Some by simp
qed

lemma factorize_positive:
  assumes "0 < n"
  shows "factorize (PyInt n) =
     (case py_pow_half n of
        Inl e \<Rightarrow> Inl e
      | Inr r \<Rightarrow>
         (case first_divisor n 2 (py_ceil r + 1) of
            Some i \<Rightarrow>
              (if i = n then Inr [i]
               else (case py_truediv n i of
                       Inl e \<Rightarrow> Inl e
                     | Inr q \<Rightarrow>
                        (case factorize (PyInt (py_int q)) of
                           Inl e \<Rightarrow> Inl e
                         | Inr fs \<Rightarrow> Inr ([i] @ fs))))
          | None \<Rightarrow> Inr [n]))"
  using assms by (subst factorize.simps) simp

lemma factorize_negative:
  assumes "n < 0"
  shows "factorize (PyInt n) =
     (case factorize (PyInt (- n)) of Inl e \<Rightarrow> Inl e | Inr fs \<Rightarrow> Inr (- 1 # fs))"
  using assms by (subst factorize.simps) (simp cong: sum.case_cong)

lemma factorize_exact_range:
  assumes n: "1 \<le> n" "n \<le> 2 ^ 53"
  shows "\<exists>r. py_pow_half n = Inr r
         \<and> (\<forall>k. 0 \<le> k \<and> k * k \<le> n \<longrightarrow> k \<le> py_ceil r)
         \<and> (\<forall>k. 0 \<le> k \<and> n \<le> k * k \<longrightarrow> py_ceil r \<le> k)
         \<and> factorize (PyInt n) =
             (case first_divisor n 2 (py_ceil r + 1) of
                Some i \<Rightarrow>
                  (if i = n then Inr [i]
                   else (case factorize (PyInt (n div i)) of
                           Inl e \<Rightarrow> Inl e
                         | Inr fs \<Rightarrow> Inr (i # fs)))
              | None \<Rightarrow> Inr [n])"
proof -
  from py_pow_half_exact_range[OF n] obtain r where r: "py_pow_half n = Inr r"
    and lo: "\<forall>k. 0 \<le> k \<and> k * k \<le> n \<longrightarrow> k \<le> py_ceil r"
    and hi: "\<forall>k. 0 \<le> k \<and> n \<le> k * k \<longrightarrow> py_ceil r \<le> k" by blast
  have pos: "0 < n" using n by simp
  have "factorize (PyInt n) =
             (case first_divisor n 2 (py_ceil r + 1) of
                Some i \<Rightarrow>
                  (if i = n then Inr [i]
                   else (case factorize (PyInt (n div i)) of
                           Inl e \<Rightarrow> Inl e
                         | Inr fs \<Rightarrow> Inr (i # fs)))
              | None \<Rightarrow> Inr [n])"
  proof (cases "first_divisor n 2 (py_ceil r + 1)")
    case None
    then show ?thesis by (simp add: factorize_positive[OF pos] r)
  next
    case (Some i)
    from first_divisor_Some[OF Some] have i: "2 \<le> i" "n mod i = 0" by auto
    have dv: "i dvd n" using i(2) by auto
    have "n div i < n" using pos i(1) by (intro int_div_less_self) auto
    then have "n div i < 2 ^ 53" using n(2) by linarith
    with py_truediv_exact[OF pos _ dv] i(1)
    obtain q where q: "py_truediv n i = Inr q" "py_int q = n div i" by auto
    show ?thesis by (simp add: factorize_positive[OF pos] r Some q cong: sum.case_cong)
  qed
  with r lo hi show ?thesis by blast
qed

lemma least_divisor_prime:
  assumes i: "2 \<le> i" "n mod i = 0" and least: "\<forall>j. 2 \<le> j \<and> j < i \<longrightarrow> n mod j \<noteq> 0"
  shows "prime_int i"
proof -
  have "\<not> d dvd i" if d: "d \<in> {2..<i}" for d
  proof
    assume "d dvd i"
    moreover have "i dvd n" using i(2) by auto
    ultimately have "d dvd n" by (rule dvd_trans)
    then have "n mod d = 0" by auto
    with least d show False by auto
  qed
  with i(1) show ?thesis by (auto simp: prime_int_def)
qed

lemma no_small_divisor_prime:
  assumes n: "2 \<le> n" and none: "\<forall>j. 2 \<le> j \<and> j * j \<le> n \<longrightarrow> n mod j \<noteq> 0"
  shows "prime_int n"
proof -
  have "\<not> d dvd n" if d: "d \<in> {2..<n}" for d
  proof
    assume "d dvd n"
    then obtain c where c: "n = d * c" by (auto simp: dvd_def)
    have d2: "2 \<le> d" "d < n" using d by auto
    have cpos: "0 < c" using c n d2 by (simp add: zero_less_mult_iff)
    have c2: "2 \<le> c"
    proof (rule ccontr)
      assume "\<not> 2 \<le> c"
      with cpos have "c = 1" by simp
      with c d2 show False by simp
    qed
    show False
    proof (cases "d \<le> c")
      case True
      then have "d * d \<le> d * c" using d2 by (intro mult_left_mono) auto
      with none d2 c have "n mod d \<noteq> 0" by auto
      with c show False by simp
    next
      case False
      then have "c * c \<le> d * c" using cpos by (intro mult_right_mono) auto
      with none c2 c have "n mod c \<noteq> 0" by auto
      with c show False by simp
    qed
  qed
  with n show ?thesis by (auto simp: prime_int_def)
qed

lemma prime_int_divisor: "prime_int p \<Longrightarrow> 2 \<le> d \<Longrightarrow> d dvd p \<Longrightarrow> d = p"
proof -
  assume p: "prime_int p" and d: "2 \<le> d" "d dvd p"
  have "0 < p" using p by (simp add: prime_int_def)
  with d(2) have "d \<le> p" by (rule zdvd_imp_le)
  with p d show ?thesis by (cases "d = p") (auto simp: prime_int_def)
qed

lemma factorize_step:
  assumes n: "1 \<le> n" "n \<le> 2 ^ 53"
    and i: "2 \<le> i" "i * i \<le> n" "n mod i = 0"
    and least: "\<forall>j\<in>set [2..i - 1]. n mod j \<noteq> 0"
  shows "factorize (PyInt n) =
     (case factorize (PyInt (n div i)) of Inl e \<Rightarrow> Inl e | Inr fs \<Rightarrow> Inr (i # fs))"
proof -
  from factorize_exact_range[OF n] obtain r where
    lo: "\<forall>k. 0 \<le> k \<and> k * k \<le> n \<longrightarrow> k \<le> py_ceil r"
    and eq: "factorize (PyInt n) =
             (case first_divisor n 2 (py_ceil r + 1) of
                Some i \<Rightarrow>
                  (if i = n then Inr [i]
                   else (case factorize (PyInt (n div i)) of
                           Inl e \<Rightarrow> Inl e
                         | Inr fs \<Rightarrow> Inr (i # fs)))
              | None \<Rightarrow> Inr [n])" by blast
  have "i \<le> py_ceil r" using lo i by auto
  then have "first_divisor n 2 (py_ceil r + 1) = Some i"
    using i least by (intro first_divisor_SomeI) auto
  moreover have "i \<noteq> n"
  proof
    assume "i = n"
    with i have nn: "n * n \<le> n" "2 \<le> n" by auto
    then have "2 * n \<le> n * n" by (intro mult_right_mono) auto
    with nn show False by linarith
  qed
  ultimately show ?thesis by (simp add: eq)
qed

lemma factorize_prime:
  assumes n: "n \<le> 2 ^ 53" and p: "prime_int n"
  shows "factorize (PyInt n) = Inr [n]"
proof -
  have n1: "1 \<le> n" using p by (simp add: prime_int_def)
  from factorize_exact_range[OF n1 n] obtain r where
    eq: "factorize (PyInt n) =
             (case first_divisor n 2 (py_ceil r + 1) of
                Some i \<Rightarrow>
                  (if i = n then Inr [i]
                   else (case factorize (PyInt (n div i)) of
                           Inl e \<Rightarrow> Inl e
                         | Inr fs \<Rightarrow> Inr (i # fs)))
              | None \<Rightarrow> Inr [n])" by blast
  show ?thesis
  proof (cases "first_divisor n 2 (py_ceil r + 1)")
    case None
    then show ?thesis by (simp add: eq)
  next
    case (Some i)
    from first_divisor_Some[OF Some] have "2 \<le> i" "i dvd n" by auto
    with p have "i = n" by (intro prime_int_divisor)
    with Some show ?thesis by (simp add: eq)
  qed
qed

lemma factorize_8: "factorize (PyInt 8) = Inr [2, 2, 2]"
  by (simp add: factorize_step[where i = 2] factorize_prime prime_int_upto)

lemma factorize_3_pow_25: "factorize (PyInt (3 ^ 25)) = Inr (replicate 25 3)"
  by (simp add: factorize_step[where i = 3] factorize_prime prime_int_upto numeral_eq_Suc)

lemma factorize_exact_range_correct:
  assumes "1 \<le> n" "n \<le> 2 ^ 53"
  shows "\<exists>fs. factorize (PyInt n) = Inr fs \<and> prod_list fs = n \<and> fs \<noteq> []
            \<and> (2 \<le> n \<longrightarrow> (\<forall>f\<in>set fs. prime_int f \<and> f dvd n) \<and> sorted fs)"
  using assms
proof (induction "nat n" arbitrary: n rule: less_induct)
  case less
  note n = less.prems
  from factorize_exact_range[OF n] obtain r where
    lo: "\<forall>k. 0 \<le> k \<and> k * k \<le> n \<longrightarrow> k \<le> py_ceil r"
    and eq: "factorize (PyInt n) =
             (case first_divisor n 2 (py_ceil r + 1) of
                Some i \<Rightarrow>
                  (if i = n then Inr [i]
                   else (case factorize (PyInt (n div i)) of
                           Inl e \<Rightarrow> Inl e
                         | Inr fs \<Rightarrow> Inr (i # fs)))
              | None \<Rightarrow> Inr [n])" by blast
  show ?case
  proof (cases "first_divisor n 2 (py_ceil r + 1)")
    case None
    have "prime_int n" if "2 \<le> n"
    proof (rule no_small_divisor_prime[OF that], intro allI impI)
      fix j assume j: "2 \<le> j \<and> j * j \<le> n"
      with lo have "j < py_ceil r + 1" by auto
      with first_divisor_None[OF None, of j] j show "n mod j \<noteq> 0" by auto
    qed
    then show ?thesis using None by (simp add: eq)
  next
    case (Some i)
    from first_divisor_Some[OF Some] have i: "2 \<le> i" "n mod i = 0" by auto
    have least: "\<forall>j. 2 \<le> j \<and> j < i \<longrightarrow> n mod j \<noteq> 0"
      using first_divisor_least[OF Some] by auto
    have pi: "prime_int i" using i least by (rule least_divisor_prime)
    have dv: "i dvd n" using i(2) by auto
    show ?thesis
    proof (cases "i = n")
      case True
      with Some pi n show ?thesis by (simp add: eq)
    next
      case False
      define m where "m = n div i"
      have nm: "n = i * m" using dv by (simp add: m_def)
      have "0 < i * m" using n nm by simp
      then have mpos: "0 < m" using i(1) by (simp add: zero_less_mult_iff)
      have m2: "2 \<le> m"
      proof (rule ccontr)
        assume "\<not> 2 \<le> m"
        with mpos have "m = 1" by simp
        with nm False show False by simp
      qed
      have mlt: "m < n" unfolding m_def using n i(1) by (intro int_div_less_self) auto
      then have "nat m < nat n" "1 \<le> m" "m \<le> 2 ^ 53" using mpos n by auto
      from less.hyps[OF this] m2 obtain fs where
        fs: "factorize (PyInt m) = Inr fs" "prod_list fs = m"
          "\<forall>f\<in>set fs. prime_int f \<and> f dvd m" "sorted fs" by auto
      have res: "factorize (PyInt n) = Inr (i # fs)"
        using Some False fs(1) by (simp add: eq m_def)
      have "i \<le> f" if f: "f \<in> set fs" for f
      proof (rule ccontr)
        assume "\<not> i \<le> f"
        moreover have "2 \<le> f" using fs(3) f by (auto simp: prime_int_def)
        moreover have "f dvd n" using fs(3) f nm by auto
        then have "n mod f = 0" by auto
        ultimately show False using least by auto
      qed
      moreover have "f dvd n" if "f \<in> set fs" for f using fs(3) that nm by auto
      ultimately show ?thesis using res fs pi dv nm by auto
    qed
  qed
qed

lemma factorize_power_of_2:
  "1 \<le> k \<Longrightarrow> k \<le> 53 \<Longrightarrow> factorize (PyInt (2 ^ k)) = Inr (replicate k 2)"
proof (induction k)
  case 0
  then show ?case by simp
next
  case (Suc k)
  show ?case
  proof (cases "k = 0")
    case True
    have "factorize (PyInt 2) = Inr [2]"
      by (rule factorize_prime) (simp_all add: prime_int_upto)
    with True show ?thesis by simp
  next
    case False
    then obtain j where j: "k = Suc j" by (cases k) auto
    have le: "(2::int) ^ Suc k \<le> 2 ^ 53"
      using Suc.prems by (intro power_increasing) auto
    have one: "1 \<le> (2::int) ^ Suc k" by (rule one_le_power) simp
    have "1 \<le> (2::int) ^ j" by (rule one_le_power) simp
    then have four: "2 * 2 \<le> (2::int) ^ Suc k" by (simp add: j)
    have "factorize (PyInt (2 ^ Suc k)) =
        (case factorize (PyInt (2 ^ Suc k div 2)) of Inl e \<Rightarrow> Inl e | Inr fs \<Rightarrow> Inr (2 # fs))"
      using one le _ four by (rule factorize_step) simp_all
    moreover have "factorize (PyInt (2 ^ k)) = Inr (replicate k 2)"
      using Suc False by simp
    ultimately show ?thesis by simp
  qed
qed

lemma factorize_2_pow_53:
  "factorize (PyInt 9007199254740992) = Inr (replicate 53 2)"
  using factorize_power_of_2[of 53] by simp

lemma factorize_beyond_exact_range_even:
  "factorize (PyInt 18014398509481986) = Inr (replicate 54 2)"
proof -
  have r: "py_pow_half 18014398509481986 = Inr (Float 2417851639229258349412352 54)"
    by code_simp
  have c: "py_ceil (Float 2417851639229258349412352 54) + 1 = 134217729"
    by (simp add: py_ceil_def)
  have d: "first_divisor 18014398509481986 2 134217729 = Some 2"
    by (subst first_divisor.simps) simp
  have q: "py_truediv 18014398509481986 2 = Inr (Float 36028797018963968 2)"
    by code_simp
  have i: "py_int (Float 36028797018963968 2) = 9007199254740992"
    by (simp add: py_int_def)
  have "factorize (PyInt 18014398509481986) = Inr (2 # replicate 53 2)"
    by (subst factorize_positive) (simp_all add: r c d q i factorize_2_pow_53)
  then show ?thesis by (simp add: numeral_eq_Suc)
qed

lemma factorize_beyond_exact_range_odd:
  "factorize (PyInt 27021597764222979) = Inr (3 # replicate 53 2)"
proof -
  have r: "py_pow_half 27021597764222979 = Inr (Float 2961251394931781055545344 54)"
    by code_simp
  have c: "py_ceil (Float 2961251394931781055545344 54) + 1 = 164382476"
    by (simp add: py_ceil_def)
  have d: "first_divisor 27021597764222979 2 164382476 = Some 3"
    by (subst first_divisor.simps, simp, subst first_divisor.simps, simp)
  have q: "py_truediv 27021597764222979 3 = Inr (Float 36028797018963968 2)"
    by code_simp
  have i: "py_int (Float 36028797018963968 2) = 9007199254740992"
    by (simp add: py_int_def)
  show ?thesis
    by (subst factorize_positive) (simp_all add: r c d q i factorize_2_pow_53)
qed

section \<open>Outcomes of factorize\<close>

lemma py_pow_half_error: "py_pow_half n = Inl e \<Longrightarrow> e = OverflowError"
  by (auto simp: py_pow_half_def py_float_of_int_def Let_def split: if_splits sum.splits)

lemma py_truediv_error: "b \<noteq> 0 \<Longrightarrow> py_truediv a b = Inl e \<Longrightarrow> e = OverflowError"
  by (auto simp: py_truediv_def Let_def split: if_splits)

lemma factorize_positive_outcome:
  assumes "0 < n"
  shows "(\<exists>fs. factorize (PyInt n) = Inr fs \<and> fs \<noteq> [] \<and> (length fs = 1 \<longrightarrow> fs = [n]))
         \<or> factorize (PyInt n) = Inl OverflowError"
  using assms
proof (induction "nat n" arbitrary: n rule: less_induct)
  case less
  note pos = less.prems
  show ?case
  proof (cases "py_pow_half n")
    case (Inl e)
    with py_pow_half_error[OF Inl] show ?thesis by (simp add: factorize_positive[OF pos])
  next
    case (Inr r)
    show ?thesis
    proof (cases "first_divisor n 2 (py_ceil r + 1)")
      case None
      with Inr show ?thesis by (simp add: factorize_positive[OF pos])
    next
      case (Some i)
      from first_divisor_Some[OF Some] have i: "2 \<le> i" "n mod i = 0" by auto
      show ?thesis
      proof (cases "i = n")
        case True
        with Inr Some show ?thesis by (simp add: factorize_positive[OF pos])
      next
        case False
        show ?thesis
        proof (cases "py_truediv n i")
          case (Inl e)
          with i(1) py_truediv_error[OF _ Inl] have "py_truediv n i = Inl OverflowError" by auto
          with Inr Some False show ?thesis by (simp add: factorize_positive[OF pos])
        next
          case q: (Inr q)
          from py_truediv_exact_bounds[OF pos i q] have b: "0 < py_int q" "py_int q < n" by auto
          then have "nat (py_int q) < nat n" by simp
          from less.hyps[OF this b(1)] show ?thesis
          proof
            assume "\<exists>fs. factorize (PyInt (py_int q)) = Inr fs \<and> fs \<noteq> [] \<and> (length fs = 1 \<longrightarrow> fs = [py_int q])"
            then obtain fs where fs: "factorize (PyInt (py_int q)) = Inr fs" "fs \<noteq> []" by blast
            have "factorize (PyInt n) = Inr (i # fs)"
              using Inr Some False q fs(1) by (simp add: factorize_positive[OF pos])
            with fs(2) show ?thesis by simp
          next
            assume "factorize (PyInt (py_int q)) = Inl OverflowError"
            with Inr Some False q show ?thesis by (simp add: factorize_positive[OF pos])
          qed
        qed
      qed
    qed
  qed
qed

lemma factorize_negative_outcome:
  assumes "n < 0"
  shows "(\<exists>fs. factorize (PyInt n) = Inr (- 1 # fs) \<and> fs \<noteq> [])
         \<or> factorize (PyInt n) = Inl OverflowError"
proof -
  have "0 < - n" using assms by simp
  from factorize_positive_outcome[OF this] show ?thesis
    by (auto simp: factorize_negative[OF assms])
qed

lemma factorize_zero: "factorize (PyInt 0) = Inl ValueError_prime_factors_of_0"
  by (subst factorize.simps) simp

lemma factorize_not_int: "\<forall>n. v \<noteq> PyInt n \<Longrightarrow> factorize v = Inl ValueError_integer_expected"
  by (subst factorize.simps) (cases v; simp)

lemma factorize_exact_range_returns:
  assumes "n \<noteq> 0" "\<bar>n\<bar> \<le> 2 ^ 53"
  shows "\<exists>fs. factorize (PyInt n) = Inr fs \<and> prod_list fs = n"
proof (cases "0 < n")
  case True
  with assms factorize_exact_range_correct[of n] show ?thesis by auto
next
  case False
  with assms have neg: "n < 0" and r: "1 \<le> - n" "- n \<le> 2 ^ 53" by auto
  from factorize_exact_range_correct[OF r] obtain fs where
    "factorize (PyInt (- n)) = Inr fs" "prod_list fs = - n" by blast
  then show ?thesis by (simp add: factorize_negative[OF neg])
qed

section \<open>Properties of factorize and is\_prime\<close>

lemma factorize_1: "factorize (PyInt 1) = Inr [1]"
proof -
  from factorize_exact_range[of 1] obtain r where
    hi: "\<forall>k. 0 \<le> k \<and> 1 \<le> k * k \<longrightarrow> py_ceil r \<le> k"
    and eq: "factorize (PyInt 1) =
             (case first_divisor 1 2 (py_ceil r + 1) of
                Some i \<Rightarrow>
                  (if i = 1 then Inr [i]
                   else (case factorize (PyInt (1 div i)) of
                           Inl e \<Rightarrow> Inl e
                         | Inr fs \<Rightarrow> Inr (i # fs)))
              | None \<Rightarrow> Inr [1])" by auto
  from hi have "py_ceil r \<le> 1" by auto
  then have "first_divisor 1 2 (py_ceil r + 1) = None"
    by (subst first_divisor.simps) simp
  then show ?thesis by (simp add: eq)
qed

lemma factorize_17: "factorize (PyInt 17) = Inr [17]"
  by (rule factorize_prime) (simp_all add: prime_int_upto)

lemma factorize_6: "factorize (PyInt 6) = Inr [2, 3]"
  by (simp add: factorize_step[where i = 2] factorize_prime prime_int_upto)

text \<open>
  C6. \<^verbatim>\<open>factorize(1) == [1]\<close>, \<^verbatim>\<open>factorize(-1) == [-1, 1]\<close>, and for every integer
  \<open>n < 0\<close> the call \<^verbatim>\<open>factorize(n)\<close> is \<^verbatim>\<open>[-1] + factorize(-n)\<close>: the list of
  \<^verbatim>\<open>factorize(-n)\<close> with \<open>-1\<close> in front, or the exception that \<^verbatim>\<open>factorize(-n)\<close>
  raises; for instance \<^verbatim>\<open>factorize(-17) == [-1, 17]\<close>.
\<close>

theorem factorize_sign_and_unity:
  "factorize (PyInt 1) = Inr [1]
   \<and> factorize (PyInt (- 1)) = Inr [- 1, 1]
   \<and> (\<forall>n<0. factorize (PyInt n) =
         (case factorize (PyInt (- n)) of Inl e \<Rightarrow> Inl e | Inr fs \<Rightarrow> Inr ([- 1] @ fs)))
   \<and> factorize (PyInt (- 17)) = Inr [- 1, 17]"
proof (intro conjI allI impI)
  show "factorize (PyInt 1) = Inr [1]" by (rule factorize_1)
  show "factorize (PyInt (- 1)) = Inr [- 1, 1]"
    by (simp add: factorize_negative factorize_1)
  show "factorize (PyInt (- 17)) = Inr [- 1, 17]"
    by (simp add: factorize_negative factorize_17)
next
  fix n :: int
  assume "n < 0"
  then show "factorize (PyInt n) =
      (case factorize (PyInt (- n)) of Inl e \<Rightarrow> Inl e | Inr fs \<Rightarrow> Inr ([- 1] @ fs))"
    by (simp add: factorize_negative cong: sum.case_cong)
qed

theorem factorize_sign_and_unity_witness:
  "(- 6 :: int) < 0 \<and> factorize (PyInt (- 6)) = Inr [- 1, 2, 3]"
proof -
  have neg: "(- 6 :: int) < 0" by simp
  from factorize_sign_and_unity have
    "\<forall>n<0. factorize (PyInt n) =
         (case factorize (PyInt (- n)) of Inl e \<Rightarrow> Inl e | Inr fs \<Rightarrow> Inr ([- 1] @ fs))"
    by blast
  with neg have "factorize (PyInt (- 6)) =
         (case factorize (PyInt (- (- 6))) of Inl e \<Rightarrow> Inl e | Inr fs \<Rightarrow> Inr ([- 1] @ fs))"
    by blast
  then show ?thesis by (simp add: factorize_6)
qed

text \<open>
  C5. \<^verbatim>\<open>factorize\<close> raises its first \<^verbatim>\<open>ValueError\<close> ("integer expected", the
  specification's InvalidInputError) exactly when its input is not an integer, a float
  included, and its second \<^verbatim>\<open>ValueError\<close> ("All primes are prime factors of 0", the
  specification's ZeroFactorizationError) exactly when its input is \<open>0\<close>. Since the
  equivalences hold for the whole call, neither is raised from a recursive call, after
  part of the work is done. \<^verbatim>\<open>is_prime\<close> raises whatever \<^verbatim>\<open>factorize\<close> raises on the
  same input, and nothing else.
\<close>

theorem factorize_error_conditions:
  "(factorize v = Inl ValueError_integer_expected \<longleftrightarrow> (\<forall>n. v \<noteq> PyInt n))
   \<and> (factorize v = Inl ValueError_prime_factors_of_0 \<longleftrightarrow> v = PyInt 0)
   \<and> (is_prime v = Inl e \<longleftrightarrow> factorize v = Inl e)
   \<and> factorize (PyFloat x) = Inl ValueError_integer_expected"
proof -
  have int_case: "factorize (PyInt n) \<noteq> Inl ValueError_integer_expected
      \<and> (factorize (PyInt n) = Inl ValueError_prime_factors_of_0 \<longleftrightarrow> n = 0)" for n
  proof -
    consider "n < 0" | "n = 0" | "0 < n" by linarith
    then show ?thesis
    proof cases
      case 1
      from factorize_negative_outcome[OF 1] show ?thesis using 1 by auto
    next
      case 2
      then show ?thesis by (simp add: factorize_zero)
    next
      case 3
      from factorize_positive_outcome[OF 3] show ?thesis using 3 by auto
    qed
  qed
  have a: "factorize v = Inl ValueError_integer_expected \<longleftrightarrow> (\<forall>n. v \<noteq> PyInt n)"
  proof (cases "\<exists>n. v = PyInt n")
    case True
    with int_case show ?thesis by auto
  next
    case False
    then show ?thesis by (simp add: factorize_not_int)
  qed
  have b: "factorize v = Inl ValueError_prime_factors_of_0 \<longleftrightarrow> v = PyInt 0"
  proof (cases "\<exists>n. v = PyInt n")
    case True
    with int_case show ?thesis by auto
  next
    case False
    then have "factorize v = Inl ValueError_integer_expected" by (simp add: factorize_not_int)
    with False show ?thesis by auto
  qed
  have c: "is_prime v = Inl e \<longleftrightarrow> factorize v = Inl e"
    by (simp add: is_prime_def split: sum.splits)
  have d: "factorize (PyFloat x) = Inl ValueError_integer_expected"
    by (simp add: factorize_not_int)
  from a b c d show ?thesis by blast
qed

text \<open>
  Up to \<open>2 ^ 53\<close> in magnitude every quotient \<^verbatim>\<open>number / i\<close> is exact, and
  \<^verbatim>\<open>factorize\<close> returns what its documentation says: the product of the result is the
  input, and for \<open>n \<ge> 2\<close> the result lists prime numbers in non-decreasing order.
\<close>

lemma factorize_roundtrip_exact_range:
  assumes "2 \<le> \<bar>n\<bar>" "\<bar>n\<bar> \<le> 2 ^ 53"
  shows "\<exists>fs. factorize (PyInt n) = Inr fs \<and> prod_list fs = n"
  using assms by (intro factorize_exact_range_returns) auto

lemma factorize_ordered_primes_exact_range:
  assumes "2 \<le> n" "n \<le> 2 ^ 53"
  shows "\<exists>fs. factorize (PyInt n) = Inr fs \<and> prod_list fs = n
            \<and> (\<forall>f\<in>set fs. prime_int f) \<and> sorted fs"
  using assms factorize_exact_range_correct[of n] by auto

text \<open>
  C1. The product of \<^verbatim>\<open>factorize(n)\<close> is \<open>n\<close> for every \<open>n\<close> with \<open>|n| \<ge> 2\<close>. The code
  breaks this above \<open>2 ^ 53\<close>: \<^verbatim>\<open>int(number / i)\<close> divides in floating point, and at
  \<open>n = 2 ^ 54 + 2\<close> the quotient \<open>2 ^ 53 + 1\<close> is rounded to \<open>2 ^ 53\<close>. The call returns
  fifty-four \<open>2\<close>s, whose product is \<open>2 ^ 54\<close>.
\<close>

theorem factorize_roundtrip_fails:
  "factorize (PyInt 18014398509481986) = Inr (replicate 54 2)
   \<and> prod_list (replicate 54 2) = (18014398509481984 :: int)
   \<and> prod_list (replicate 54 2) \<noteq> (18014398509481986 :: int)"
  by (simp add: factorize_beyond_exact_range_even)

text \<open>
  C2. For every \<open>n \<ge> 2\<close>, \<^verbatim>\<open>factorize(n)\<close> is the prime factorization of \<open>n\<close> in
  non-decreasing order. The two examples hold (\<open>factorize_8\<close>,
  \<open>factorize_3_pow_25\<close>), and so does the property up to \<open>2 ^ 53\<close>
  (\<open>factorize_ordered_primes_exact_range\<close>). Above, the rounded quotient breaks it: at
  \<open>n = 3 * (2 ^ 53 + 1)\<close> the call returns \<open>3\<close> followed by fifty-three \<open>2\<close>s, which is
  neither ordered nor a factorization of the odd number \<open>n\<close>.
\<close>

theorem factorize_order_fails:
  "factorize (PyInt 27021597764222979) = Inr (3 # replicate 53 2)
   \<and> \<not> sorted (3 # replicate 53 (2 :: int))
   \<and> prod_list (3 # replicate 53 2) \<noteq> (27021597764222979 :: int)"
  by (simp add: factorize_beyond_exact_range_odd)

text \<open>
  C3, as the code has it. \<^verbatim>\<open>is_prime(1)\<close> returns \<^verbatim>\<open>True\<close> and \<^verbatim>\<open>is_prime(0)\<close> raises the
  \<^verbatim>\<open>ValueError\<close> of \<^verbatim>\<open>factorize(0)\<close>; neither returns \<^verbatim>\<open>False\<close>.
\<close>

theorem is_prime_1_and_0:
  "is_prime (PyInt 1) = Inr True \<and> is_prime (PyInt 0) = Inl ValueError_prime_factors_of_0"
  by (simp add: is_prime_def factorize_1 factorize_zero)

text \<open>
  C3, amended. For every integer \<open>n\<close> other than \<open>1\<close>, \<^verbatim>\<open>is_prime(n)\<close> returns \<^verbatim>\<open>True\<close>
  exactly when \<^verbatim>\<open>factorize(n)\<close> has one element and \<open>n\<close> is none of \<open>-1\<close>, \<open>0\<close>, \<open>1\<close>. For
  a negative \<open>n\<close> it returns \<^verbatim>\<open>False\<close>, unless \<open>n\<close> is so large that the conversion to a
  float overflows, which no \<open>n \<ge> - 2 ^ 53\<close> is. For \<open>0\<close> it raises the \<^verbatim>\<open>ValueError\<close> of
  \<^verbatim>\<open>factorize(0)\<close>. For \<open>n \<ge> 2\<close> it returns \<^verbatim>\<open>True\<close> exactly when \<^verbatim>\<open>factorize(n)\<close> is
  \<open>[n]\<close>.
\<close>

theorem is_prime_characterisation:
  "(n \<noteq> 1 \<longrightarrow>
      (is_prime (PyInt n) = Inr True
       \<longleftrightarrow> (\<exists>f. factorize (PyInt n) = Inr [f]) \<and> n \<notin> {- 1, 0, 1}))
   \<and> (n < 0 \<longrightarrow> is_prime (PyInt n) = Inr False \<or> is_prime (PyInt n) = Inl OverflowError)
   \<and> (n < 0 \<and> - (2 ^ 53) \<le> n \<longrightarrow> is_prime (PyInt n) = Inr False)
   \<and> is_prime (PyInt 0) = Inl ValueError_prime_factors_of_0
   \<and> (2 \<le> n \<longrightarrow> (is_prime (PyInt n) = Inr True \<longleftrightarrow> factorize (PyInt n) = Inr [n]))"
proof -
  have true_iff: "is_prime (PyInt n) = Inr True \<longleftrightarrow> (\<exists>f. factorize (PyInt n) = Inr [f])"
    by (auto simp: is_prime_def length_Suc_conv split: sum.splits)
  have neg: "is_prime (PyInt n) = Inr False \<or> is_prime (PyInt n) = Inl OverflowError"
    if "n < 0"
    using factorize_negative_outcome[OF that] by (auto simp: is_prime_def)
  have zero: "is_prime (PyInt 0) = Inl ValueError_prime_factors_of_0"
    by (simp add: is_prime_def factorize_zero)
  have a: "is_prime (PyInt n) = Inr True
       \<longleftrightarrow> (\<exists>f. factorize (PyInt n) = Inr [f]) \<and> n \<notin> {- 1, 0, 1}" if "n \<noteq> 1"
  proof -
    have "n \<noteq> - 1 \<and> n \<noteq> 0" if t: "is_prime (PyInt n) = Inr True"
    proof -
      have "n \<noteq> 0" using t zero by auto
      moreover have "\<not> n < 0" using t neg by auto
      ultimately show ?thesis by auto
    qed
    with \<open>n \<noteq> 1\<close> true_iff show ?thesis by auto
  qed
  have c: "is_prime (PyInt n) = Inr False" if "n < 0 \<and> - (2 ^ 53) \<le> n"
  proof -
    from that have "n \<noteq> 0" "\<bar>n\<bar> \<le> 2 ^ 53" by auto
    from factorize_exact_range_returns[OF this] have "is_prime (PyInt n) \<noteq> Inl OverflowError"
      by (auto simp: is_prime_def)
    with neg that show ?thesis by auto
  qed
  have e: "is_prime (PyInt n) = Inr True \<longleftrightarrow> factorize (PyInt n) = Inr [n]" if "2 \<le> n"
  proof -
    from that have "0 < n" by simp
    from factorize_positive_outcome[OF this] show ?thesis
      by (auto simp: is_prime_def)
  qed
  from a neg c zero e show ?thesis by blast
qed

theorem is_prime_characterisation_witness:
  "is_prime (PyInt 7) = Inr True \<and> is_prime (PyInt (- 17)) = Inr False
   \<and> is_prime (PyInt (- 1)) \<noteq> Inr True"
proof -
  have f7: "factorize (PyInt 7) = Inr [7]"
    by (rule factorize_prime) (simp_all add: prime_int_upto)
  have "is_prime (PyInt 7) = Inr True"
    using is_prime_characterisation[of 7] f7 by simp
  moreover have "is_prime (PyInt (- 17)) = Inr False"
    using is_prime_characterisation[of "- 17"] by simp
  moreover have "is_prime (PyInt (- 1)) \<noteq> Inr True"
    using is_prime_characterisation[of "- 1"] by simp
  ultimately show ?thesis by blast
qed

lemma tested_divisors_bounds:
  "j \<in> set (tested_divisors number i stop) \<Longrightarrow> i \<le> j \<and> j < stop"
proof (induction number i stop rule: tested_divisors.induct)
  case (1 number i stop)
  show ?case
  proof (cases "i < stop \<and> number mod i \<noteq> 0")
    case True
    with "1.prems" have "j = i \<or> j \<in> set (tested_divisors number (i + 1) stop)"
      by (subst (asm) tested_divisors.simps) auto
    with "1.IH" True show ?thesis by auto
  next
    case False
    with "1.prems" show ?thesis
      by (subst (asm) tested_divisors.simps) (auto split: if_splits)
  qed
qed

text \<open>
  C9, as the code has it. The scan does not stop at \<open>i * i \<le> number\<close>: its range ends at
  \<^verbatim>\<open>int(math.ceil(number**0.5))\<close>, so for \<open>number = 5\<close> it tests \<open>i = 3\<close>, and \<open>3 * 3 > 5\<close>.
\<close>

theorem scan_tests_beyond_square_root:
  "py_pow_half 5 = Inr (Float 40281419640972608 54)
   \<and> tested_divisors 5 2 (py_ceil (Float 40281419640972608 54) + 1) = [2, 3]
   \<and> \<not> 3 * 3 \<le> (5 :: int)"
proof -
  have r: "py_pow_half 5 = Inr (Float 40281419640972608 54)"
    by code_simp
  have c: "py_ceil (Float 40281419640972608 54) + 1 = 4"
    by (simp add: py_ceil_def)
  have "tested_divisors 5 2 4 = [2, 3]"
    by (subst tested_divisors.simps, simp, subst tested_divisors.simps, simp,
        subst tested_divisors.simps, simp)
  with r c show ?thesis by simp
qed

text \<open>
  C9, amended. \<^verbatim>\<open>factorize\<close> terminates on every integer: it is a total function, whose
  termination proof is the first statement below: the number it is called on again, the
  quotient \<^verbatim>\<open>int(number / i)\<close>, is positive and strictly smaller than \<^verbatim>\<open>number\<close>. A call
  ends with a list, with the \<^verbatim>\<open>ValueError\<close> for \<open>0\<close>, or with \<^verbatim>\<open>OverflowError\<close> when the
  number is too large for a float, which no number up to \<open>2 ^ 53\<close> in magnitude is. The
  scan starts at \<open>2\<close> and, for a number up to \<open>2 ^ 53\<close>, tests \<open>i\<close> only while
  \<open>(i - 1) * (i - 1) < number\<close>, that is up to the square root rounded up.
\<close>

theorem factorize_descent_and_scan:
  "(0 < number \<and> first_divisor number 2 stop = Some i \<and> i \<noteq> number
       \<and> py_truediv number i = Inr q
      \<longrightarrow> 0 < py_int q \<and> py_int q < number)
   \<and> ((\<exists>fs. factorize (PyInt number) = Inr fs)
        \<or> factorize (PyInt number) = Inl OverflowError
        \<or> (number = 0 \<and> factorize (PyInt number) = Inl ValueError_prime_factors_of_0))
   \<and> (number \<noteq> 0 \<and> \<bar>number\<bar> \<le> 2 ^ 53 \<longrightarrow> (\<exists>fs. factorize (PyInt number) = Inr fs))
   \<and> (1 \<le> number \<and> number \<le> 2 ^ 53 \<longrightarrow>
        (\<exists>r. py_pow_half number = Inr r
           \<and> (\<forall>j\<in>set (tested_divisors number 2 (py_ceil r + 1)).
                 2 \<le> j \<and> (j - 1) * (j - 1) < number)))"
proof -
  have a: "0 < py_int q \<and> py_int q < number"
    if h: "0 < number \<and> first_divisor number 2 stop = Some i \<and> i \<noteq> number
       \<and> py_truediv number i = Inr q"
  proof -
    from h have fd: "first_divisor number 2 stop = Some i" by simp
    from first_divisor_Some[OF fd] have "2 \<le> i" "number mod i = 0" by auto
    with h show ?thesis by (intro py_truediv_exact_bounds) auto
  qed
  have b: "(\<exists>fs. factorize (PyInt number) = Inr fs)
        \<or> factorize (PyInt number) = Inl OverflowError
        \<or> (number = 0 \<and> factorize (PyInt number) = Inl ValueError_prime_factors_of_0)"
  proof -
    consider "number < 0" | "number = 0" | "0 < number" by linarith
    then show ?thesis
    proof cases
      case 1
      from factorize_negative_outcome[OF 1] show ?thesis by auto
    next
      case 2
      then show ?thesis by (simp add: factorize_zero)
    next
      case 3
      from factorize_positive_outcome[OF 3] show ?thesis by auto
    qed
  qed
  have c: "\<exists>fs. factorize (PyInt number) = Inr fs" if "number \<noteq> 0 \<and> \<bar>number\<bar> \<le> 2 ^ 53"
    using that factorize_exact_range_returns[of number] by auto
  have d: "\<exists>r. py_pow_half number = Inr r
           \<and> (\<forall>j\<in>set (tested_divisors number 2 (py_ceil r + 1)).
                 2 \<le> j \<and> (j - 1) * (j - 1) < number)"
    if n: "1 \<le> number \<and> number \<le> 2 ^ 53"
  proof -
    from n py_pow_half_exact_range[of number] obtain r where r: "py_pow_half number = Inr r"
      and lo: "\<forall>k. 0 \<le> k \<and> k * k \<le> number \<longrightarrow> k \<le> py_ceil r"
      and hi: "\<forall>k. 0 \<le> k \<and> number \<le> k * k \<longrightarrow> py_ceil r \<le> k" by blast
    have b1: "1 \<le> py_ceil r" using lo n by auto
    have top: "(py_ceil r - 1) * (py_ceil r - 1) < number"
    proof (rule ccontr)
      assume "\<not> (py_ceil r - 1) * (py_ceil r - 1) < number"
      moreover from hi have "0 \<le> py_ceil r - 1 \<and> number \<le> (py_ceil r - 1) * (py_ceil r - 1)
          \<longrightarrow> py_ceil r \<le> py_ceil r - 1" by (rule spec)
      ultimately have "py_ceil r \<le> py_ceil r - 1" using b1 by simp
      then show False by simp
    qed
    have "2 \<le> j \<and> (j - 1) * (j - 1) < number"
      if j: "j \<in> set (tested_divisors number 2 (py_ceil r + 1))" for j
    proof -
      from tested_divisors_bounds[OF j] have jb: "2 \<le> j" "j \<le> py_ceil r" by auto
      then have "(j - 1) * (j - 1) \<le> (py_ceil r - 1) * (py_ceil r - 1)"
        by (intro mult_mono) auto
      with top jb show ?thesis by simp
    qed
    with r show ?thesis by blast
  qed
  from a b c d show ?thesis by blast
qed

theorem factorize_descent_and_scan_witness:
  "0 < py_int (Float 31525197391593472 52) \<and> py_int (Float 31525197391593472 52) < 35
   \<and> (\<exists>fs. factorize (PyInt 35) = Inr fs)
   \<and> (\<exists>r. py_pow_half 35 = Inr r \<and> tested_divisors 35 2 (py_ceil r + 1) \<noteq> [])"
proof -
  have fd: "first_divisor 35 2 7 = Some 5"
    by (subst first_divisor.simps, simp)+
  have q: "py_truediv 35 5 = Inr (Float 31525197391593472 52)"
    by code_simp
  note t = factorize_descent_and_scan[of 35 7 5 "Float 31525197391593472 52"]
  have "0 < py_int (Float 31525197391593472 52) \<and> py_int (Float 31525197391593472 52) < 35"
    using t fd q by simp
  moreover have "\<exists>fs. factorize (PyInt 35) = Inr fs"
    using t by simp
  moreover have "\<exists>r. py_pow_half 35 = Inr r \<and> tested_divisors 35 2 (py_ceil r + 1) \<noteq> []"
  proof -
    from t obtain r where r: "py_pow_half 35 = Inr r" by auto
    have "tested_divisors 35 2 (py_ceil r + 1) \<noteq> []" if "2 < py_ceil r + 1"
      using that by (subst tested_divisors.simps) simp
    moreover have "2 < py_ceil r + 1"
      using py_pow_half_exact_range[of 35] r by auto
    ultimately show ?thesis using r by blast
  qed
  ultimately show ?thesis by blast
qed

section \<open>The invariant of the sieve\<close>

lemma prime_int_ge_2: "prime_int p \<Longrightarrow> 2 \<le> p"
  by (simp add: prime_int_def)

lemma watch_unique:
  assumes "0 < p" "watch c p k" "watch c p k'"
  shows "k = k'"
proof -
  have aux: "\<not> a < b" if a: "watch c p a" and b: "watch c p b" for a b
  proof
    assume lt: "a < b"
    from a b obtain x y where x: "a = p * x" and y: "b = p * y" by (auto simp: watch_def dvd_def)
    from lt x y assms(1) have "x < y" by (simp add: mult_less_cancel_left_pos)
    then have "p * (x + 1) \<le> p * y" using assms(1) by (intro mult_left_mono) auto
    then have step: "a + p \<le> b" using x y by (simp add: algebra_simps)
    from b have "b < c + p \<or> b = p * p" by (simp add: watch_def)
    then show False
    proof
      assume "b < c + p"
      with step a show False by (simp add: watch_def)
    next
      assume "b = p * p"
      with lt a show False by (simp add: watch_def)
    qed
  qed
  from aux[OF assms(2,3)] aux[OF assms(3,2)] show ?thesis by simp
qed

lemma composite_has_small_prime_factor:
  assumes c: "2 \<le> c" and np: "\<not> prime_int c"
  shows "\<exists>p. prime_int p \<and> p dvd c \<and> p * p \<le> c"
proof -
  from c np obtain d where d: "2 \<le> d" "d < c" "d dvd c" by (auto simp: prime_int_def)
  have "first_divisor c 2 c \<noteq> None"
  proof
    assume "first_divisor c 2 c = None"
    from first_divisor_None[OF this d(1,2)] d(3) show False by auto
  qed
  then obtain p where p: "first_divisor c 2 c = Some p" by auto
  from first_divisor_Some[OF p] have pb: "2 \<le> p" "p < c" "c mod p = 0" by auto
  have least: "\<forall>j. 2 \<le> j \<and> j < p \<longrightarrow> c mod j \<noteq> 0"
    using first_divisor_least[OF p] by auto
  have pp: "prime_int p" using pb(1,3) least by (rule least_divisor_prime)
  from pb(3) obtain e where e: "c = p * e" by (auto simp: dvd_def mod_eq_0_iff_dvd)
  have "0 < p * e" using c e by simp
  then have epos: "0 < e" using pb(1) by (simp add: zero_less_mult_iff)
  have e2: "2 \<le> e"
  proof (rule ccontr)
    assume "\<not> 2 \<le> e"
    with epos have "e = 1" by simp
    with e pb(2) show False by simp
  qed
  have "c mod e = 0" using e by simp
  with least e2 have "p \<le> e" by force
  then have "p * p \<le> p * e" using pb(1) by (intro mult_left_mono) auto
  with pp pb(3) e show ?thesis by auto
qed

lemma sieve_inv_candidate:
  assumes "sieve_inv s"
  shows "divisors s (candidate s) = None \<longleftrightarrow> prime_int (candidate s)"
proof
  assume none: "divisors s (candidate s) = None"
  show "prime_int (candidate s)"
  proof (rule ccontr)
    assume np: "\<not> prime_int (candidate s)"
    from assms have c2: "2 \<le> candidate s" by (simp add: sieve_inv_def)
    from composite_has_small_prime_factor[OF c2 np] obtain p where
      p: "prime_int p" "p dvd candidate s" "p * p \<le> candidate s" by blast
    have p2: "2 \<le> p" using p(1) by (rule prime_int_ge_2)
    have "p < candidate s"
    proof (rule ccontr)
      assume "\<not> p < candidate s"
      moreover have "p \<le> candidate s" using p(2) c2 by (intro zdvd_imp_le) auto
      ultimately have "p = candidate s" by simp
      with p(1) np show False by simp
    qed
    with assms p(1) obtain k ws where k: "divisors s k = Some ws" "p \<in> set ws"
      unfolding sieve_inv_def by blast
    with assms have "watch (candidate s) p k" unfolding sieve_inv_def by blast
    moreover have "watch (candidate s) p (candidate s)"
      using p p2 by (simp add: watch_def)
    ultimately have "k = candidate s" using p2 by (intro watch_unique[of p]) auto
    with k none show False by simp
  qed
next
  assume pr: "prime_int (candidate s)"
  show "divisors s (candidate s) = None"
  proof (rule ccontr)
    assume "divisors s (candidate s) \<noteq> None"
    then obtain ws where ws: "divisors s (candidate s) = Some ws" by auto
    with assms have ne: "ws \<noteq> []"
      and all: "\<forall>p\<in>set ws. prime_int p \<and> p < candidate s \<and> watch (candidate s) p (candidate s)"
      unfolding sieve_inv_def by blast+
    from ne obtain p where "p \<in> set ws" by (cases ws) auto
    with all have p: "prime_int p" "p < candidate s" "p dvd candidate s"
      by (auto simp: watch_def)
    from prime_int_divisor[OF pr prime_int_ge_2[OF p(1)] p(3)] p(2) show False by simp
  qed
qed

lemma fold_setdefault_append:
  "fold (\<lambda>p d. setdefault_append c d p) ws d k =
     (if \<exists>p\<in>set ws. p + c = k
      then Some ((case d k of None \<Rightarrow> [] | Some l \<Rightarrow> l) @ filter (\<lambda>p. p + c = k) ws)
      else d k)"
proof (induction ws arbitrary: d)
  case Nil
  show ?case by simp
next
  case (Cons w ws)
  define d' where "d' = setdefault_append c d w"
  have dk: "d' k = (if w + c = k
                    then Some ((case d k of None \<Rightarrow> [] | Some l \<Rightarrow> l) @ [w]) else d k)"
    by (auto simp: d'_def setdefault_append_def)
  have "fold (\<lambda>p d. setdefault_append c d p) (w # ws) d k
        = fold (\<lambda>p d. setdefault_append c d p) ws d' k"
    by (simp add: d'_def)
  also have "\<dots> = (if \<exists>p\<in>set ws. p + c = k
      then Some ((case d' k of None \<Rightarrow> [] | Some l \<Rightarrow> l) @ filter (\<lambda>p. p + c = k) ws)
      else d' k)"
    by (rule Cons.IH)
  also have "\<dots> = (if \<exists>p\<in>set (w # ws). p + c = k
      then Some ((case d k of None \<Rightarrow> [] | Some l \<Rightarrow> l) @ filter (\<lambda>p. p + c = k) (w # ws))
      else d k)"
    by (auto simp: dk split: option.splits)
  finally show ?case .
qed

lemma watch_advance: "watch c p k \<Longrightarrow> k \<noteq> c \<Longrightarrow> watch (c + 1) p k"
  by (auto simp: watch_def)

lemma watch_next: "2 \<le> p \<Longrightarrow> watch c p c \<Longrightarrow> watch (c + 1) p (p + c)"
proof -
  assume p: "2 \<le> p" and w: "watch c p c"
  then have "p dvd c" "p * p \<le> c" by (auto simp: watch_def)
  with p show ?thesis by (auto simp: watch_def)
qed

lemma watch_square: "2 \<le> c \<Longrightarrow> watch (c + 1) c (c * c)"
proof -
  assume c: "2 \<le> c"
  then have "2 * c \<le> c * c" by (intro mult_right_mono) auto
  with c have "c + 1 \<le> c * c" by linarith
  then show ?thesis by (simp add: watch_def)
qed

lemma not_watch_square:
  assumes "2 \<le> p" "p < c"
  shows "\<not> watch c p (c * c)"
proof
  assume w: "watch c p (c * c)"
  have "2 * c \<le> c * c" using assms by (intro mult_right_mono) auto
  then have a: "\<not> c * c < c + p" using assms by linarith
  have b: "p * p < c * c" using assms by (intro mult_strict_mono) auto
  from w have "c * c < c + p \<or> c * c = p * p" by (simp add: watch_def)
  with a b show False by linarith
qed

lemma sieve_inv_prime_step:
  assumes inv: "sieve_inv s" and none: "divisors s (candidate s) = None"
  shows "sieve_inv \<lparr>divisors = (divisors s)(candidate s * candidate s \<mapsto> [candidate s]),
                    candidate = candidate s + 1\<rparr>"
proof -
  define c where "c = candidate s"
  define D where "D = divisors s"
  have c2: "2 \<le> c" using inv by (simp add: sieve_inv_def c_def)
  have ent: "l \<noteq> [] \<and> distinct l \<and> (\<forall>p\<in>set l. prime_int p \<and> p < c \<and> watch c p k)"
    if "D k = Some l" for k l
    using inv that unfolding sieve_inv_def c_def D_def by blast
  have cov: "\<exists>k l. D k = Some l \<and> p \<in> set l" if "prime_int p" "p < c" for p
    using inv that unfolding sieve_inv_def c_def D_def by blast
  have pc: "prime_int c" using sieve_inv_candidate[OF inv] none by (simp add: c_def)
  have Dc: "D c = None" using none by (simp add: c_def D_def)
  have sq: "D (c * c) = None"
  proof (rule ccontr)
    assume "D (c * c) \<noteq> None"
    then obtain l where l: "D (c * c) = Some l" by auto
    from ent[OF l] obtain p where "p \<in> set l" by (cases l) auto
    with ent[OF l] have "prime_int p" "p < c" "watch c p (c * c)" by auto
    with not_watch_square[of p c] prime_int_ge_2[of p] show False by simp
  qed
  have e': "l \<noteq> [] \<and> distinct l \<and> (\<forall>p\<in>set l. prime_int p \<and> p < c + 1 \<and> watch (c + 1) p k)"
    if l: "(D(c * c \<mapsto> [c])) k = Some l" for k l
  proof (cases "k = c * c")
    case True
    with l have "l = [c]" by simp
    with pc c2 True watch_square[OF c2] show ?thesis by simp
  next
    case False
    with l have dl: "D k = Some l" by simp
    with Dc have "k \<noteq> c" by auto
    with ent[OF dl] show ?thesis by (auto intro: watch_advance)
  qed
  have c': "\<exists>k l. (D(c * c \<mapsto> [c])) k = Some l \<and> p \<in> set l" if p: "prime_int p" "p < c + 1" for p
  proof (cases "p = c")
    case True
    then show ?thesis by auto
  next
    case False
    with p have "p < c" by simp
    from cov[OF p(1) this] obtain k l where kl: "D k = Some l" "p \<in> set l" by blast
    with sq have "k \<noteq> c * c" by auto
    with kl show ?thesis by auto
  qed
  show ?thesis
    unfolding sieve_inv_def using c2 e' c'
    by (simp add: c_def[symmetric] D_def[symmetric])
qed

lemma sieve_inv_composite_step:
  assumes inv: "sieve_inv s" and some: "divisors s (candidate s) = Some ws"
  shows "sieve_inv
     \<lparr>divisors = (fold (\<lambda>p d. setdefault_append (candidate s) d p) ws (divisors s))
                    (candidate s := None),
      candidate = candidate s + 1\<rparr>"
proof -
  define c where "c = candidate s"
  define D where "D = divisors s"
  define D' where "D' = (fold (\<lambda>p d. setdefault_append c d p) ws D)(c := None)"
  have c2: "2 \<le> c" using inv by (simp add: sieve_inv_def c_def)
  have ent: "l \<noteq> [] \<and> distinct l \<and> (\<forall>p\<in>set l. prime_int p \<and> p < c \<and> watch c p k)"
    if "D k = Some l" for k l
    using inv that unfolding sieve_inv_def c_def D_def by blast
  have cov: "\<exists>k l. D k = Some l \<and> p \<in> set l" if "prime_int p" "p < c" for p
    using inv that unfolding sieve_inv_def c_def D_def by blast
  have Dc: "D c = Some ws" using some by (simp add: c_def D_def)
  have npc: "\<not> prime_int c" using sieve_inv_candidate[OF inv] some by (simp add: c_def)
  have ws: "prime_int p \<and> 2 \<le> p \<and> p < c \<and> watch c p c" if "p \<in> set ws" for p
    using ent[OF Dc] that prime_int_ge_2[of p] by auto
  have dws: "distinct ws" using ent[OF Dc] by simp
  have D'k: "D' k = (if k = c then None
       else if \<exists>p\<in>set ws. p + c = k
            then Some ((case D k of None \<Rightarrow> [] | Some l \<Rightarrow> l) @ filter (\<lambda>p. p + c = k) ws)
            else D k)" for k
    by (simp add: D'_def fold_setdefault_append)
  have old: "prime_int q \<and> q < c + 1 \<and> watch (c + 1) q k \<and> q \<notin> set ws"
    if dl: "D k = Some l" and k: "k \<noteq> c" and q: "q \<in> set l" for k l q
  proof -
    from ent[OF dl] q have a: "prime_int q" "q < c" "watch c q k" by auto
    have "q \<notin> set ws"
    proof
      assume "q \<in> set ws"
      with ws have "watch c q c" "2 \<le> q" by auto
      with a(3) have "k = c" by (intro watch_unique[of q c]) auto
      with k show False by simp
    qed
    with a k show ?thesis by (auto intro: watch_advance)
  qed
  have new: "prime_int q \<and> q < c + 1 \<and> watch (c + 1) q (q + c)" if "q \<in> set ws" for q
    using ws[OF that] by (auto intro: watch_next)
  have e': "l \<noteq> [] \<and> distinct l \<and> (\<forall>p\<in>set l. prime_int p \<and> p < c + 1 \<and> watch (c + 1) p k)"
    if l: "D' k = Some l" for k l
  proof -
    from l have k: "k \<noteq> c" by (auto simp: D'k split: if_splits)
    show ?thesis
    proof (cases "\<exists>p\<in>set ws. p + c = k")
      case False
      with l k have dl: "D k = Some l" by (simp add: D'k)
      with ent[OF dl] old[OF dl k] show ?thesis by auto
    next
      case True
      define l0 where "l0 = (case D k of None \<Rightarrow> [] | Some l \<Rightarrow> l)"
      define f where "f = filter (\<lambda>p. p + c = k) ws"
      from True l k have leq: "l = l0 @ f" by (simp add: D'k l0_def f_def)
      have fne: "f \<noteq> []" using True by (auto simp: f_def filter_empty_conv)
      have df: "distinct f" using dws by (simp add: f_def)
      have l0: "distinct l0 \<and> (\<forall>q\<in>set l0. prime_int q \<and> q < c + 1 \<and> watch (c + 1) q k \<and> q \<notin> set ws)"
      proof (cases "D k")
        case None
        then show ?thesis by (simp add: l0_def)
      next
        case (Some l1)
        with ent[OF Some] old[OF Some k] show ?thesis by (auto simp: l0_def)
      qed
      have fel: "\<forall>q\<in>set f. prime_int q \<and> q < c + 1 \<and> watch (c + 1) q k \<and> q \<in> set ws"
        using new by (auto simp: f_def)
      from l0 fel have "set l0 \<inter> set f = {}" by auto
      with l0 fel fne df show ?thesis by (auto simp: leq)
    qed
  qed
  have c': "\<exists>k l. D' k = Some l \<and> p \<in> set l" if p: "prime_int p" "p < c + 1" for p
  proof -
    from p npc have pc: "p < c" by (cases "p = c") auto
    from cov[OF p(1) pc] obtain k l where kl: "D k = Some l" "p \<in> set l" by blast
    show ?thesis
    proof (cases "k = c")
      case True
      with kl Dc have pw: "p \<in> set ws" by simp
      from ws[OF pw] have "p + c \<noteq> c" by simp
      with pw have "\<exists>l. D' (p + c) = Some l \<and> p \<in> set l"
        by (auto simp: D'k)
      then show ?thesis by blast
    next
      case False
      with kl have "\<exists>l. D' k = Some l \<and> p \<in> set l"
        by (auto simp: D'k)
      then show ?thesis by blast
    qed
  qed
  have "sieve_inv \<lparr>divisors = D', candidate = c + 1\<rparr>"
    unfolding sieve_inv_def using c2 e' c' by simp
  then show ?thesis by (simp add: D'_def c_def D_def)
qed

lemma sieve_inv_generate_primes: "sieve_inv generate_primes"
  by (simp add: sieve_inv_def generate_primes_def prime_int_def)

lemma loop_body_inv:
  assumes "sieve_inv s"
  shows "sieve_inv (snd (loop_body s))"
    and "candidate (snd (loop_body s)) = candidate s + 1"
    and "fst (loop_body s) = (if prime_int (candidate s) then Some (candidate s) else None)"
proof -
  show "sieve_inv (snd (loop_body s))"
  proof (cases "divisors s (candidate s)")
    case None
    with sieve_inv_prime_step[OF assms None] show ?thesis by (simp add: loop_body_def)
  next
    case (Some ws)
    with sieve_inv_composite_step[OF assms Some] show ?thesis by (simp add: loop_body_def)
  qed
  show "candidate (snd (loop_body s)) = candidate s + 1"
    by (simp add: loop_body_def split: option.splits)
  show "fst (loop_body s) = (if prime_int (candidate s) then Some (candidate s) else None)"
    using sieve_inv_candidate[OF assms] by (auto simp: loop_body_def split: option.splits)
qed

lemma pass_inv: "sieve_inv (pass n)"
  by (induction n) (simp_all add: sieve_inv_generate_primes loop_body_inv)

lemma candidate_pass: "candidate (pass n) = int n + 2"
  by (induction n) (simp_all add: generate_primes_def loop_body_inv pass_inv)

lemma emitted_primes: "emitted n = filter prime_int [2..int n + 1]"
proof (induction n)
  case 0
  show ?case by simp
next
  case (Suc n)
  have "[2..int (Suc n) + 1] = [2..int n + 1] @ [int n + 2]"
    using upto_rec2[of 2 "int n + 2"] by (simp add: add.commute)
  then show ?case
    by (simp add: Suc loop_body_inv[OF pass_inv] candidate_pass)
qed

section \<open>There is always a next prime\<close>

lemma prime_divisor_exists:
  assumes "2 \<le> m"
  shows "\<exists>p. prime_int p \<and> p dvd m"
proof (cases "prime_int m")
  case True
  then show ?thesis by auto
next
  case False
  from composite_has_small_prime_factor[OF assms False] show ?thesis by blast
qed

lemma prime_above: "\<exists>p. prime_int p \<and> n \<le> p"
proof -
  define m :: int where "m = int (fact (nat n)) + 1"
  have "1 \<le> int (fact (nat n))" by (simp add: Suc_le_eq)
  then have "2 \<le> m" by (simp add: m_def)
  from prime_divisor_exists[OF this] obtain p where p: "prime_int p" "p dvd m" by blast
  have p2: "2 \<le> p" using p(1) by (rule prime_int_ge_2)
  have "n \<le> p"
  proof (rule ccontr)
    assume "\<not> n \<le> p"
    then have "nat p \<le> nat n" "1 \<le> nat p" using p2 by auto
    then have "nat p dvd fact (nat n)" by (intro dvd_fact) auto
    then have "int (nat p) dvd int (fact (nat n))" by (simp only: int_dvd_int_iff)
    then have "p dvd int (fact (nat n))" using p2 by simp
    with p(2) have "p dvd m - int (fact (nat n))" by (intro dvd_diff)
    then have "p dvd 1" by (simp add: m_def)
    with p2 show False by simp
  qed
  with p(1) show ?thesis by blast
qed

lemma next_prime_returns:
  assumes "sieve_inv s"
  shows "\<exists>p s'. next_prime s = Some (p, s') \<and> sieve_inv s' \<and> candidate s' = p + 1
           \<and> prime_int p \<and> candidate s \<le> p
           \<and> (\<forall>q. candidate s \<le> q \<and> q < p \<longrightarrow> \<not> prime_int q)"
proof -
  from prime_above[of "candidate s"] obtain r where r: "prime_int r" "candidate s \<le> r" by blast
  from assms r(2) show ?thesis
  proof (induction "nat (r - candidate s)" arbitrary: s rule: less_induct)
    case less
    note inv = less.prems(1)
    show ?case
    proof (cases "prime_int (candidate s)")
      case True
      define s1 where "s1 = snd (loop_body s)"
      have "loop_body s = (Some (candidate s), s1)"
        using loop_body_inv(3)[OF inv] True by (simp add: prod_eq_iff s1_def)
      then have "next_prime s = Some (candidate s, s1)"
        by (subst next_prime.simps) simp
      moreover have "sieve_inv s1" "candidate s1 = candidate s + 1"
        using loop_body_inv(1,2)[OF inv] by (simp_all add: s1_def)
      ultimately show ?thesis using True by auto
    next
      case False
      define s1 where "s1 = snd (loop_body s)"
      have "loop_body s = (None, s1)"
        using loop_body_inv(3)[OF inv] False by (simp add: prod_eq_iff s1_def)
      then have np: "next_prime s = next_prime s1"
        by (subst next_prime.simps) simp
      have inv1: "sieve_inv s1" and c1: "candidate s1 = candidate s + 1"
        using loop_body_inv(1,2)[OF inv] by (simp_all add: s1_def)
      have "candidate s \<noteq> r" using False r(1) by auto
      with less.prems(2) have lt: "candidate s < r" by simp
      then have "nat (r - candidate s1) < nat (r - candidate s)" "candidate s1 \<le> r"
        using c1 by auto
      from less.hyps[OF this(1) inv1 this(2)] obtain p s' where
        ps: "next_prime s1 = Some (p, s')" "sieve_inv s'" "candidate s' = p + 1"
          "prime_int p" "candidate s1 \<le> p"
          "\<forall>q. candidate s1 \<le> q \<and> q < p \<longrightarrow> \<not> prime_int q" by blast
      have "\<forall>q. candidate s \<le> q \<and> q < p \<longrightarrow> \<not> prime_int q"
      proof (intro allI impI)
        fix q assume q: "candidate s \<le> q \<and> q < p"
        show "\<not> prime_int q"
        proof (cases "q = candidate s")
          case True
          with False show ?thesis by simp
        next
          case F: False
          with q c1 have "candidate s1 \<le> q \<and> q < p" by simp
          with ps(6) show ?thesis by blast
        qed
      qed
      with ps c1 np show ?thesis by auto
    qed
  qed
qed

lemma pull_returns:
  assumes "sieve_inv s"
  shows "\<exists>ps s'. pull k s = Some (ps, s') \<and> sieve_inv s' \<and> candidate s \<le> candidate s'
           \<and> length ps = k \<and> ps = filter prime_int [candidate s..candidate s' - 1]"
  using assms
proof (induction k arbitrary: s)
  case 0
  then show ?case by simp
next
  case (Suc k)
  from next_prime_returns[OF Suc.prems] obtain p s1 where
    n: "next_prime s = Some (p, s1)" "sieve_inv s1" "candidate s1 = p + 1"
       "prime_int p" "candidate s \<le> p"
       "\<forall>q. candidate s \<le> q \<and> q < p \<longrightarrow> \<not> prime_int q" by blast
  from Suc.IH[OF n(2)] obtain ps s' where
    r: "pull k s1 = Some (ps, s')" "sieve_inv s'" "candidate s1 \<le> candidate s'"
       "length ps = k" "ps = filter prime_int [candidate s1..candidate s' - 1]" by blast
  have le: "p \<le> candidate s' - 1" using r(3) n(3) by simp
  have "[candidate s..candidate s' - 1]
        = [candidate s..p - 1] @ p # [p + 1..candidate s' - 1]"
    using n(5) le by (rule upto_split3)
  moreover have "filter prime_int [candidate s..p - 1] = []"
    using n(6) by (auto simp: filter_empty_conv)
  ultimately have "filter prime_int [candidate s..candidate s' - 1] = p # ps"
    using n(3,4) r(5) by simp
  moreover have "pull (Suc k) s = Some (p # ps, s')" using n(1) r(1) by simp
  moreover have "candidate s \<le> candidate s'" using n(5) le by simp
  ultimately show ?case using r(2,4) by simp
qed

section \<open>Consequences of the invariant\<close>

lemma sieve_inv_key_ge:
  assumes "sieve_inv s" "divisors s k = Some ws"
  shows "candidate s \<le> k"
proof -
  from assms have ne: "ws \<noteq> []" and all: "\<forall>p\<in>set ws. watch (candidate s) p k"
    unfolding sieve_inv_def by blast+
  from ne obtain p where "p \<in> set ws" by (cases ws) auto
  with all show ?thesis by (auto simp: watch_def)
qed

lemma sieve_inv_unique_key:
  assumes "sieve_inv s" "divisors s k = Some ws" "p \<in> set ws"
    "divisors s k' = Some ws'" "p \<in> set ws'"
  shows "k = k'"
proof -
  from assms(1,2,3) have a: "prime_int p" "watch (candidate s) p k"
    unfolding sieve_inv_def by blast+
  from assms(1,4,5) have b: "watch (candidate s) p k'"
    unfolding sieve_inv_def by blast
  from prime_int_ge_2[OF a(1)] have "0 < p" by simp
  then show ?thesis using a(2) b by (rule watch_unique)
qed

lemma sieve_inv_card:
  assumes inv: "sieve_inv s"
  shows "finite (dom (divisors s))
       \<and> card (dom (divisors s)) \<le> card {p. prime_int p \<and> p < candidate s}"
proof -
  define P where "P = {p. prime_int p \<and> p < candidate s}"
  define f where "f = (\<lambda>k. hd (the (divisors s k)))"
  have "P \<subseteq> {2..<candidate s}" by (auto simp: P_def dest: prime_int_ge_2)
  then have fin: "finite P" by (rule finite_subset) simp
  have mem: "f k \<in> set ws" if "divisors s k = Some ws" for k ws
  proof -
    from inv that have "ws \<noteq> []" unfolding sieve_inv_def by blast
    with that show ?thesis by (simp add: f_def)
  qed
  have inj: "inj_on f (dom (divisors s))"
  proof (rule inj_onI)
    fix k k' assume k: "k \<in> dom (divisors s)" "k' \<in> dom (divisors s)" "f k = f k'"
    then obtain ws ws' where w: "divisors s k = Some ws" "divisors s k' = Some ws'" by auto
    from mem[OF w(1)] mem[OF w(2)] k(3) have "f k \<in> set ws" "f k \<in> set ws'" by auto
    with sieve_inv_unique_key[OF inv w(1) _ w(2)] show "k = k'" by blast
  qed
  have sub: "f ` dom (divisors s) \<subseteq> P"
  proof
    fix p assume "p \<in> f ` dom (divisors s)"
    then obtain k ws where w: "divisors s k = Some ws" "p = f k" by auto
    from mem[OF w(1)] w(2) have "p \<in> set ws" by simp
    with inv w(1) show "p \<in> P" unfolding sieve_inv_def P_def by blast
  qed
  from sub fin have "finite (f ` dom (divisors s))" by (rule finite_subset)
  with inj have "finite (dom (divisors s))" by (rule finite_imageD[rotated])
  moreover have "card (dom (divisors s)) \<le> card P" using inj sub fin by (rule card_inj_on_le)
  ultimately show ?thesis by (simp add: P_def)
qed

lemma set_emitted: "set (emitted n) = {p. prime_int p \<and> p < candidate (pass n)}"
  by (auto simp: emitted_primes candidate_pass dest: prime_int_ge_2)

lemma distinct_emitted: "distinct (emitted n)"
  by (simp add: emitted_primes)

lemma loop_body_composite_divisors:
  assumes "divisors s (candidate s) = Some ws"
  shows "divisors (snd (loop_body s)) k =
     (if k = candidate s then None
      else if \<exists>p\<in>set ws. p + candidate s = k
           then Some ((case divisors s k of None \<Rightarrow> [] | Some l \<Rightarrow> l)
                        @ filter (\<lambda>p. p + candidate s = k) ws)
           else divisors s k)"
  using assms by (simp add: loop_body_def fold_setdefault_append)

section \<open>Properties of generate\_primes\<close>

lemma first_3_pulled: "map_option fst (pull 3 generate_primes) = Some [2, 3, 5]"
  by (simp add: numeral_eq_Suc next_prime.simps loop_body_def setdefault_append_def generate_primes_def)

lemma first_10_pulled:
  "map_option fst (pull 10 generate_primes) = Some [2, 3, 5, 7, 11, 13, 17, 19, 23, 29]"
  by (simp add: numeral_eq_Suc next_prime.simps loop_body_def setdefault_append_def generate_primes_def)

lemma primes_below_nth:
  assumes ps: "ps = filter prime_int [2..m]" and j: "j < length ps"
  shows "card {q. prime_int q \<and> q < ps ! j} = j"
proof -
  have srt: "sorted_wrt (<) ps" unfolding ps by (rule sorted_wrt_filter) simp
  have dst: "distinct ps" unfolding ps by simp
  have mem: "q \<in> set ps \<longleftrightarrow> prime_int q \<and> q \<le> m" for q
    by (auto simp: ps dest: prime_int_ge_2)
  have less: "ps ! a < ps ! b" if "a < b" "b < length ps" for a b
    using srt that by (simp add: sorted_wrt_iff_nth_less)
  have "{q. prime_int q \<and> q < ps ! j} = set (take j ps)"
  proof (intro set_eqI iffI)
    fix q assume "q \<in> {q. prime_int q \<and> q < ps ! j}"
    then have q: "prime_int q" "q < ps ! j" by auto
    have "ps ! j \<in> set ps" using j by simp
    then have "ps ! j \<le> m" by (simp add: mem)
    with q have "q \<in> set ps" by (simp add: mem)
    then obtain i where i: "i < length ps" "ps ! i = q" by (auto simp: in_set_conv_nth)
    have "i < j"
    proof (rule ccontr)
      assume "\<not> i < j"
      then have "i = j \<or> j < i" by auto
      with less[of j i] i q(2) show False by auto
    qed
    with i show "q \<in> set (take j ps)" by (auto simp: in_set_conv_nth)
  next
    fix q assume "q \<in> set (take j ps)"
    then obtain i where i: "i < j" "i < length ps" "ps ! i = q"
      by (auto simp: in_set_conv_nth)
    then have "q \<in> set ps" by auto
    with less[OF i(1) j] i(3) show "q \<in> {q. prime_int q \<and> q < ps ! j}" by (auto simp: mem)
  qed
  moreover have "card (set (take j ps)) = length (take j ps)"
    using dst by (intro distinct_card distinct_take)
  ultimately show ?thesis using j by simp
qed

text \<open>
  C4. The values pulled from \<^verbatim>\<open>generate_primes()\<close> are the prime numbers in increasing
  order, none left out and none twice: for every \<open>k\<close> the first \<open>k\<close> calls of \<^verbatim>\<open>next\<close>
  return, and the \<open>k\<close> values they return are all the primes below the candidate the
  generator has reached, in strictly increasing order. The value at position \<open>j\<close>
  (counting from \<open>0\<close>) is a prime with exactly \<open>j\<close> primes below it, that is the
  \<open>(j + 1)\<close>-th prime. The first ten are \<open>2, 3, 5, 7, 11, 13, 17, 19, 23, 29\<close>.
\<close>

theorem generate_primes_sequence:
  "(\<exists>ps s. pull k generate_primes = Some (ps, s) \<and> length ps = k
       \<and> ps = filter prime_int [2..candidate s - 1]
       \<and> sorted_wrt (<) ps \<and> distinct ps
       \<and> (\<forall>j<k. prime_int (ps ! j) \<and> card {q. prime_int q \<and> q < ps ! j} = j))
   \<and> map_option fst (pull 10 generate_primes) = Some [2, 3, 5, 7, 11, 13, 17, 19, 23, 29]"
proof -
  from pull_returns[OF sieve_inv_generate_primes, of k] obtain ps s where
    r: "pull k generate_primes = Some (ps, s)" "length ps = k"
       "ps = filter prime_int [candidate generate_primes..candidate s - 1]" by blast
  have c: "candidate generate_primes = 2" by (simp add: generate_primes_def)
  have f: "ps = filter prime_int [2..candidate s - 1]" using r(3) c by simp
  have "sorted_wrt (<) ps" unfolding r(3) by (rule sorted_wrt_filter) simp
  moreover have "distinct ps" unfolding r(3) by simp
  moreover have "\<forall>j<k. prime_int (ps ! j) \<and> card {q. prime_int q \<and> q < ps ! j} = j"
  proof (intro allI impI conjI)
    fix j assume j: "j < k"
    then have "ps ! j \<in> set ps" using r(2) by simp
    then show "prime_int (ps ! j)" by (subst (asm) f) simp
    show "card {q. prime_int q \<and> q < ps ! j} = j"
      using f j r(2) by (intro primes_below_nth) auto
  qed
  ultimately show ?thesis using r(1,2) f first_10_pulled by blast
qed

theorem generate_primes_sequence_witness:
  "map_option fst (pull 3 generate_primes) = Some [2, 3, 5]
   \<and> (\<exists>s. pull 3 generate_primes = Some ([2, 3, 5], s)
          \<and> [2, 3, 5] = filter prime_int [2..candidate s - 1])
   \<and> prime_int 5 \<and> card {q. prime_int q \<and> q < 5} = 2"
proof -
  from generate_primes_sequence[of 3] obtain ps s where
    r: "pull 3 generate_primes = Some (ps, s)" "ps = filter prime_int [2..candidate s - 1]"
      "\<forall>j<3. prime_int (ps ! j) \<and> card {q. prime_int q \<and> q < ps ! j} = j"
    by blast
  from r(1) first_3_pulled have ps: "ps = [2, 3, 5]" by simp
  from r(3) have "prime_int (ps ! 2) \<and> card {q. prime_int q \<and> q < ps ! 2} = 2" by simp
  then have "prime_int 5 \<and> card {q. prime_int q \<and> q < 5} = 2" by (simp add: ps)
  with r ps first_3_pulled show ?thesis by auto
qed

lemma count_list_distinct: "distinct ws \<Longrightarrow> p \<in> set ws \<Longrightarrow> count_list ws p = 1"
  by (induction ws) auto

lemma pass_2: "candidate (pass 2) = 4 \<and> divisors (pass 2) 4 = Some [2]"
  by (simp add: numeral_eq_Suc loop_body_def setdefault_append_def generate_primes_def)

text \<open>
  C7. At the top of every pass of the loop the dictionary has the candidate as a key
  exactly when the candidate is composite (it is at least \<open>2\<close> and has a divisor
  strictly between \<open>1\<close> and itself). After the pass the candidate is not a key any more,
  and each witness \<open>p\<close> of the candidate is in the list of the key \<open>candidate + p\<close>.
\<close>

theorem sieve_entry_iff_composite:
  "2 \<le> candidate (pass n)
   \<and> (candidate (pass n) \<in> dom (divisors (pass n))
        \<longleftrightarrow> (\<exists>d\<in>{2..<candidate (pass n)}. d dvd candidate (pass n)))
   \<and> candidate (pass n) \<notin> dom (divisors (pass (Suc n)))
   \<and> (\<forall>ws. divisors (pass n) (candidate (pass n)) = Some ws \<longrightarrow>
         (\<forall>p\<in>set ws. \<exists>l. divisors (pass (Suc n)) (candidate (pass n) + p) = Some l
                             \<and> p \<in> set l))"
proof -
  define s where "s = pass n"
  have inv: "sieve_inv s" by (simp add: s_def pass_inv)
  have c2: "2 \<le> candidate s" using inv by (simp add: sieve_inv_def)
  have nx: "pass (Suc n) = snd (loop_body s)" by (simp add: s_def)
  have a: "candidate s \<in> dom (divisors s) \<longleftrightarrow> (\<exists>d\<in>{2..<candidate s}. d dvd candidate s)"
    using sieve_inv_candidate[OF inv] c2 by (auto simp: prime_int_def)
  have b: "candidate s \<notin> dom (divisors (snd (loop_body s)))"
  proof (cases "divisors s (candidate s)")
    case None
    have "2 * candidate s \<le> candidate s * candidate s"
      using c2 by (intro mult_right_mono) auto
    with c2 have "candidate s * candidate s \<noteq> candidate s" by linarith
    with None show ?thesis by (auto simp: loop_body_def)
  next
    case (Some ws)
    then show ?thesis by (auto simp: loop_body_composite_divisors)
  qed
  have c: "\<exists>l. divisors (snd (loop_body s)) (candidate s + p) = Some l \<and> p \<in> set l"
    if ws: "divisors s (candidate s) = Some ws" and p: "p \<in> set ws" for ws p
  proof -
    from inv ws p have "prime_int p" unfolding sieve_inv_def by blast
    then have "candidate s + p \<noteq> candidate s" using prime_int_ge_2[of p] by simp
    with p show ?thesis
      by (auto simp: loop_body_composite_divisors[OF ws] add.commute)
  qed
  from c2 a b c show ?thesis unfolding nx s_def[symmetric] by blast
qed

theorem sieve_entry_iff_composite_witness:
  "4 \<in> dom (divisors (pass 2)) \<and> 4 \<notin> dom (divisors (pass 3))
   \<and> (\<exists>l. divisors (pass 3) 6 = Some l \<and> 2 \<in> set l)"
proof -
  note t = sieve_entry_iff_composite[of 2]
  have s3: "Suc 2 = 3" by simp
  have "4 \<in> dom (divisors (pass 2))" using pass_2 by auto
  moreover have "4 \<notin> dom (divisors (pass 3))" using t pass_2 by (simp add: s3)
  moreover have "\<exists>l. divisors (pass 3) 6 = Some l \<and> 2 \<in> set l"
  proof -
    from t have "\<forall>ws. divisors (pass 2) (candidate (pass 2)) = Some ws \<longrightarrow>
         (\<forall>p\<in>set ws. \<exists>l. divisors (pass (Suc 2)) (candidate (pass 2) + p) = Some l
                             \<and> p \<in> set l)" by blast
    with pass_2 have "\<forall>p\<in>set [2]. \<exists>l. divisors (pass (Suc 2)) (4 + p) = Some l \<and> p \<in> set l"
      by simp
    then show ?thesis by (simp add: s3)
  qed
  ultimately show ?thesis by blast
qed

text \<open>
  C8, as the code has it. After the first pass the candidate is \<open>3\<close>, the only prime
  found is \<open>2\<close>, whose square is above \<open>3\<close>, and the dictionary already has one key, \<open>4\<close>.
\<close>

theorem sieve_key_before_square:
  "candidate (pass 1) = 3 \<and> emitted 1 = [2]
   \<and> filter (\<lambda>p. p * p \<le> candidate (pass 1)) (emitted 1) = []
   \<and> dom (divisors (pass 1)) = {4} \<and> card (dom (divisors (pass 1))) = 1"
  by (simp add: loop_body_def generate_primes_def)

text \<open>
  C8, amended. At the top of every pass the dictionary has finitely many keys, and no
  more keys than primes have been yielded so far.
\<close>

theorem sieve_keys_bounded:
  "finite (dom (divisors (pass n))) \<and> card (dom (divisors (pass n))) \<le> length (emitted n)"
proof -
  from sieve_inv_card[OF pass_inv, of n]
  have "finite (dom (divisors (pass n)))"
    "card (dom (divisors (pass n))) \<le> card (set (emitted n))"
    by (simp_all add: set_emitted)
  moreover have "card (set (emitted n)) = length (emitted n)"
    using distinct_emitted by (rule distinct_card)
  ultimately show ?thesis by simp
qed

theorem sieve_keys_bounded_witness:
  "card (dom (divisors (pass 2))) \<le> 2 \<and> emitted 2 = [2, 3]"
proof -
  have e: "emitted 2 = [2, 3]"
    by (simp add: numeral_eq_Suc loop_body_def setdefault_append_def generate_primes_def)
  with sieve_keys_bounded[of 2] show ?thesis by simp
qed

text \<open>
  C10. At the top of every pass, each prime \<open>p\<close> yielded so far is a witness in the list
  of exactly one key, once in that list; the key is a multiple of \<open>p\<close> and is not below
  the candidate. So no key of the dictionary is below the candidate, and the dictionary
  has finitely many keys, no more than primes have been yielded.
\<close>

theorem sieve_witness_invariant:
  "(\<forall>p\<in>set (emitted n).
      (\<exists>!k. \<exists>ws. divisors (pass n) k = Some ws \<and> p \<in> set ws)
      \<and> (\<forall>k ws. divisors (pass n) k = Some ws \<and> p \<in> set ws
            \<longrightarrow> p dvd k \<and> candidate (pass n) \<le> k \<and> count_list ws p = 1))
   \<and> (\<forall>k\<in>dom (divisors (pass n)). candidate (pass n) \<le> k)
   \<and> finite (dom (divisors (pass n)))
   \<and> card (dom (divisors (pass n))) \<le> length (emitted n)"
proof -
  define s where "s = pass n"
  have inv: "sieve_inv s" by (simp add: s_def pass_inv)
  have em: "set (emitted n) = {p. prime_int p \<and> p < candidate s}"
    by (simp add: set_emitted s_def)
  have a: "(\<exists>!k. \<exists>ws. divisors s k = Some ws \<and> p \<in> set ws)
      \<and> (\<forall>k ws. divisors s k = Some ws \<and> p \<in> set ws
            \<longrightarrow> p dvd k \<and> candidate s \<le> k \<and> count_list ws p = 1)"
    if p: "p \<in> set (emitted n)" for p
  proof -
    from p em have pp: "prime_int p" "p < candidate s" by auto
    with inv obtain k ws where k: "divisors s k = Some ws" "p \<in> set ws"
      unfolding sieve_inv_def by blast
    have "\<exists>!k. \<exists>ws. divisors s k = Some ws \<and> p \<in> set ws"
    proof (rule ex1I[of _ k])
      show "\<exists>ws. divisors s k = Some ws \<and> p \<in> set ws" using k by blast
    next
      fix k' assume "\<exists>ws. divisors s k' = Some ws \<and> p \<in> set ws"
      then obtain ws' where "divisors s k' = Some ws'" "p \<in> set ws'" by blast
      from sieve_inv_unique_key[OF inv this k] show "k' = k" .
    qed
    moreover have "p dvd j \<and> candidate s \<le> j \<and> count_list l p = 1"
      if "divisors s j = Some l \<and> p \<in> set l" for j l
    proof -
      from that have jl: "divisors s j = Some l" "p \<in> set l" by auto
      with inv have "distinct l" "watch (candidate s) p j" unfolding sieve_inv_def by blast+
      with jl(2) show ?thesis by (simp add: watch_def count_list_distinct)
    qed
    ultimately show ?thesis by blast
  qed
  have b: "\<forall>k\<in>dom (divisors s). candidate s \<le> k"
    using sieve_inv_key_ge[OF inv] by auto
  from a have a': "\<forall>p\<in>set (emitted n).
      (\<exists>!k. \<exists>ws. divisors s k = Some ws \<and> p \<in> set ws)
      \<and> (\<forall>k ws. divisors s k = Some ws \<and> p \<in> set ws
            \<longrightarrow> p dvd k \<and> candidate s \<le> k \<and> count_list ws p = 1)" by blast
  from sieve_inv_card[OF inv]
  have fin: "finite (dom (divisors s))"
    and "card (dom (divisors s)) \<le> card (set (emitted n))"
    by (simp_all add: em)
  moreover have "card (set (emitted n)) = length (emitted n)"
    using distinct_emitted by (rule distinct_card)
  ultimately have cd: "card (dom (divisors s)) \<le> length (emitted n)" by simp
  show ?thesis unfolding s_def[symmetric] using a' b fin cd by (intro conjI)
qed

theorem sieve_witness_invariant_witness:
  "emitted 3 = [2, 3] \<and> candidate (pass 3) = 5
   \<and> divisors (pass 3) 6 = Some [2] \<and> divisors (pass 3) 9 = Some [3]
   \<and> (\<exists>!k. \<exists>ws. divisors (pass 3) k = Some ws \<and> 3 \<in> set ws)
   \<and> card (dom (divisors (pass 3))) \<le> 2"
proof -
  have e: "emitted 3 = [2, 3]"
    by (simp add: numeral_eq_Suc loop_body_def setdefault_append_def generate_primes_def
        prime_int_upto)
  have p: "candidate (pass 3) = 5 \<and> divisors (pass 3) 6 = Some [2] \<and> divisors (pass 3) 9 = Some [3]"
    by (simp add: numeral_eq_Suc loop_body_def setdefault_append_def generate_primes_def)
  from sieve_witness_invariant[of 3] e have
    "\<exists>!k. \<exists>ws. divisors (pass 3) k = Some ws \<and> 3 \<in> set ws"
    "card (dom (divisors (pass 3))) \<le> 2" by simp_all
  with e p show ?thesis by blast
qed

end
